theory Spec2Isabelle
  imports Main "HOL-Library.Word"
begin

unbundle bit_operations_syntax

section \<open>Data model of app.c\<close>

text \<open>
  The argument vector is the storage the scanner works on: one byte buffer per token,
  held without its final terminator (the terminator is the byte at index \<open>length\<close>).
  A \<open>char*\<close> into that storage is a pair (token index, byte offset); \<open>None\<close> is NULL.
  \<open>argv[argc]\<close> is NULL, as C guarantees for the vector handed to \<open>main\<close>, so
  \<open>_argc\<close> is the length of the list.
\<close>

type_synonym ptr = "nat \<times> nat"

datatype fault = NullDeref | OutOfBounds | Uninitialised

datatype exit_status = EXIT_SUCCESS | EXIT_FAILURE

text \<open>\<open>cmdopt_t\<close>: the option object owned by the caller.\<close>

record cmdopt =
  shorto :: char
  longo :: "string option"
  flags :: "8 word"
  value_ptr :: "ptr option"

text \<open>
  \<open>cmdarg_internal_t\<close>. Every registration is taken to hand in its own \<open>cmdopt_t\<close>
  object, so the object is stored in the entry that points to it; a conflict is the
  registration index of the option it names.
\<close>

record cmdarg_internal =
  result :: cmdopt
  description :: string
  conflicts :: "nat list"

record cmdapp_info =
  program :: string
  synopses :: "string list option"
  info_description :: string
  version :: string
  author :: string
  year :: int
  ver_extra :: string

text \<open>
  \<open>cmdapp_t\<close>. \<open>_length\<close> is the length of \<open>start\<close>; \<open>_capacity\<close> and the
  capacity of the positional buffer only steer reallocation and are left out.
  \<open>args\<close> is \<open>_args\<close>: \<open>None\<close> while \<open>contents\<close> is NULL (then \<open>length\<close> is 0,
  as \<open>cmdapp_init\<close> sets it), otherwise the \<open>length\<close> pointers stored so far.
\<close>

record cmdapp =
  argv :: "string list"
  mode :: "32 word"
  start :: "cmdarg_internal list"
  args :: "ptr list option"
  info :: cmdapp_info

text \<open>
  The constants of app.h, which app.c uses and does not define. The option flags are
  stored in the \<open>uint8_t\<close> field \<open>flags\<close>; the mode is an enumerator.
\<close>

record app_h =
  CMDOPT_TAKESARG :: "8 word"
  CMDOPT_EXISTS :: "8 word"
  CMDAPP_MODE_SHORTARG :: "32 word"

text \<open>What a call prints: the \<open>eprintf\<close> diagnostics, or the \<open>printf\<close> calls of a renderer.\<close>

datatype diag =
  Expects_an_argument string
| Does_not_take_arguments string
| Unrecognized_option string

datatype printf_arg = Str string | Chr char | Dec int

datatype printed = Silent | Stderr diag | Stdout "(string \<times> printf_arg list) list"

text \<open>
  One pass through the body of the \<open>for\<close> loop of \<open>cmdapp_run\<close> either reaches the
  end of the body (\<open>Continue\<close>, with the value of \<open>i\<close> before the loop's own
  increment and the value of \<open>only_args\<close>), or returns from the function.
\<close>

datatype outcome =
  Continue nat bool cmdapp
| Return exit_status printed cmdapp

section \<open>C strings\<close>

definition NUL :: char where
  "NUL = CHR 0x00"

definition NL :: char where
  "NL = CHR 0x0A"

definition CR :: char where
  "CR = CHR 0x0D"

text \<open>
  \<open>str[k]\<close>. The byte at \<open>length\<close> is the terminator. A read the source makes beyond
  it is guarded in the model by an explicit bounds test that yields \<open>OutOfBounds\<close>.
\<close>

definition byte :: "string \<Rightarrow> nat \<Rightarrow> char" where
  "byte str k = (if k < length str then str ! k else NUL)"

definition cstr :: "string \<Rightarrow> string" where
  "cstr buf = takeWhile (\<lambda>ch. ch \<noteq> NUL) buf"

definition cstr_at :: "string list \<Rightarrow> ptr \<Rightarrow> string" where
  "cstr_at av p = cstr (drop (snd p) (av ! fst p))"

fun strchr :: "string \<Rightarrow> char \<Rightarrow> nat option" where
  "strchr [] ch = (if ch = NUL then Some 0 else None)"
| "strchr (x # xs) ch =
     (if x = ch then Some 0
      else if x = NUL then None
      else map_option Suc (strchr xs ch))"

definition IS_END_OF_FLAGS :: "string \<Rightarrow> bool" where
  "IS_END_OF_FLAGS str \<longleftrightarrow>
     byte str 0 = CHR ''-'' \<and> byte str 1 = CHR ''-'' \<and> byte str 2 = NUL"

definition IS_LONG_FLAG :: "string \<Rightarrow> bool" where
  "IS_LONG_FLAG str \<longleftrightarrow> byte str 0 = CHR ''-'' \<and> byte str 1 = CHR ''-''"

definition IS_SHORT_FLAG :: "string \<Rightarrow> bool" where
  "IS_SHORT_FLAG str \<longleftrightarrow> byte str 0 = CHR ''-''"

section \<open>Registry\<close>

definition cmdapp_init :: "string list \<Rightarrow> 32 word \<Rightarrow> cmdapp_info \<Rightarrow> cmdapp" where
  "cmdapp_init av m nfo =
     \<lparr>argv = av, mode = m, start = [], args = None, info = nfo\<rparr>"

definition cmdapp_append :: "cmdapp \<Rightarrow> cmdarg_internal \<Rightarrow> cmdapp" where
  "cmdapp_append app arg_int = app\<lparr>start := start app @ [arg_int]\<rparr>"

definition cmdapp_set ::
  "cmdapp \<Rightarrow> char \<Rightarrow> string option \<Rightarrow> 8 word \<Rightarrow> nat list option \<Rightarrow> string \<Rightarrow> cmdapp" where
  "cmdapp_set app sh lo fl confl descr =
     cmdapp_append app
       \<lparr>result = \<lparr>shorto = sh, longo = lo, flags = fl, value_ptr = None\<rparr>,
        description = descr,
        conflicts = (case confl of None \<Rightarrow> [] | Some cs \<Rightarrow> cs)\<rparr>"

text \<open>
  \<open>cmdapp_search\<close>: the index of the first entry that matches. With a long name it
  hands the \<open>longo\<close> of every entry it passes to \<open>strcmp\<close>, NULL included.
\<close>

primrec search_short :: "char \<Rightarrow> cmdarg_internal list \<Rightarrow> nat \<Rightarrow> nat option" where
  "search_short sh [] i = None"
| "search_short sh (e # es) i =
     (if shorto (result e) = sh then Some i else search_short sh es (Suc i))"

primrec search_long :: "string \<Rightarrow> cmdarg_internal list \<Rightarrow> nat \<Rightarrow> fault + nat option" where
  "search_long lo [] i = Inr None"
| "search_long lo (e # es) i =
     (case longo (result e) of
        None \<Rightarrow> Inl NullDeref
      | Some l \<Rightarrow> if l = lo then Inr (Some i) else search_long lo es (Suc i))"

definition cmdapp_search :: "cmdapp \<Rightarrow> char \<Rightarrow> string option \<Rightarrow> fault + nat option" where
  "cmdapp_search app sh lo =
     (case lo of
        None \<Rightarrow> Inr (search_short sh (start app) 0)
      | Some l \<Rightarrow> search_long l (start app) 0)"

text \<open>Writes through \<open>arg_int->result\<close>.\<close>

definition set_value :: "nat \<Rightarrow> ptr option \<Rightarrow> cmdapp \<Rightarrow> cmdapp" where
  "set_value k p app =
     app\<lparr>start := (start app)[k := (start app ! k)
            \<lparr>result := (result (start app ! k))\<lparr>value_ptr := p\<rparr>\<rparr>]\<rparr>"

definition set_exists :: "app_h \<Rightarrow> nat \<Rightarrow> cmdapp \<Rightarrow> cmdapp" where
  "set_exists c k app =
     app\<lparr>start := (start app)[k := (start app ! k)
            \<lparr>result := (result (start app ! k))
               \<lparr>flags := flags (result (start app ! k)) OR CMDOPT_EXISTS c\<rparr>\<rparr>]\<rparr>"

definition opt_flags :: "cmdapp \<Rightarrow> nat \<Rightarrow> 8 word" where
  "opt_flags app k = flags (result (start app ! k))"

definition opt_value :: "cmdapp \<Rightarrow> nat \<Rightarrow> ptr option" where
  "opt_value app k = value_ptr (result (start app ! k))"

section \<open>Renderers\<close>

definition option_line :: "app_h \<Rightarrow> cmdarg_internal \<Rightarrow> (string \<times> printf_arg list) list" where
  "option_line c arg_int =
     [(''                    %s'' @ [CR], [Str (description arg_int)]),
      (''  -%c'', [Chr (shorto (result arg_int))])]
     @ (case longo (result arg_int) of
          None \<Rightarrow> []
        | Some l \<Rightarrow> [('', --%s'', [Str l])])
     @ (if flags (result arg_int) OR CMDOPT_TAKESARG c \<noteq> 0 then [(''=ARG'', [])] else [])
     @ [([NL], [])]"

text \<open>
  \<open>cmdapp_print_help\<close>. Its option loop runs \<open>i\<close> up to \<open>_argc\<close> over \<open>_start[i]\<close>,
  of which only the first \<open>_length\<close> slots were ever written.
\<close>

definition cmdapp_print_help :: "app_h \<Rightarrow> cmdapp \<Rightarrow> fault + (string \<times> printf_arg list) list" where
  "cmdapp_print_help c app =
     (case argv app of
        [] \<Rightarrow> Inl NullDeref
      | a0 # _ \<Rightarrow>
          let usage =
                (case synopses (info app) of
                   Some (s # ss) \<Rightarrow>
                     (''Usage: %s %s'' @ [NL], [Str (cstr a0), Str s])
                     # map (\<lambda>s'. (''   or: %s %s'' @ [NL], [Str (cstr a0), Str s'])) ss
                 | _ \<Rightarrow> [(''Usage: %s [OPTION]... ARG...'' @ [NL], [Str (cstr a0)])]);
              head = usage @ [([NL], []),
                              (''%s'' @ [NL], [Str (info_description (info app))]),
                              ([NL], [])]
          in if start app = [] then Inr head
             else if length (start app) < length (argv app) then Inl Uninitialised
             else Inr (head @ [(''Options: '' @ [NL], [])]
                        @ concat (map (option_line c) (take (length (argv app)) (start app)))))"

definition cmdapp_print_version :: "cmdapp \<Rightarrow> (string \<times> printf_arg list) list" where
  "cmdapp_print_version app =
     [(''%s %s'' @ [NL], [Str (program (info app)), Str (version (info app))]),
      (''Copyright (C) %d %s'' @ [NL], [Dec (year (info app)), Str (author (info app))]),
      (''%s'', [Str (ver_extra (info app))])]"

section \<open>The scanner\<close>

text \<open>\<open>APPEND_ARG\<close>: stores the pointer itself in the positional buffer.\<close>

definition APPEND_ARG :: "cmdapp \<Rightarrow> ptr \<Rightarrow> fault + cmdapp" where
  "APPEND_ARG app p =
     (case args app of
        None \<Rightarrow> Inl NullDeref
      | Some ps \<Rightarrow> Inr (app\<lparr>args := Some (ps @ [p])\<rparr>))"

text \<open>
  The inner loop of the multi-flag branch, \<open>for (j = 1; current[j]; j++)\<close>.
  \<open>cur\<close> is the index of \<open>current\<close> in the vector, \<open>nxt\<close> the index of \<open>next\<close>
  (read once, before the loop), \<open>i\<close> the outer loop variable.
\<close>

function multiflag_loop ::
  "string \<Rightarrow> nat \<Rightarrow> nat option \<Rightarrow> nat \<Rightarrow> nat \<Rightarrow> cmdapp \<Rightarrow> fault + outcome" where
  "multiflag_loop current cur nxt j i app =
     (if byte current j \<noteq> NUL then
        (case cmdapp_search app (byte current 1) None of
           Inl f \<Rightarrow> Inl f
         | Inr None \<Rightarrow>
             Inr (Return EXIT_FAILURE
                    (Stderr (Unrecognized_option [CHR ''-'', byte current 1])) app)
         | Inr (Some k) \<Rightarrow>
             let app1 = set_value k (Some (cur, 2)) app in
             if length current < 4 then Inl OutOfBounds
             else if byte current 4 = NUL then
               (if nxt \<noteq> None \<and> byte (argv app1 ! the nxt) 0 \<noteq> CHR ''-'' then
                  multiflag_loop current cur nxt (Suc j) (Suc i)
                    (set_value k (Some (the nxt, 0)) app1)
                else
                  Inr (Return EXIT_FAILURE
                         (Stderr (Expects_an_argument [CHR ''-'', byte current 1])) app1))
             else multiflag_loop current cur nxt (Suc j) i app1)
      else Inr (Continue i False app))"
  by pat_completeness auto
termination
  by (relation "measure (\<lambda>(current, cur, nxt, j, i, app). length current - j)")
     (auto simp: byte_def NUL_def split: if_splits)

declare multiflag_loop.simps [simp del]

text \<open>
  The body of the \<open>for\<close> loop of \<open>cmdapp_run\<close> for the token at index \<open>i\<close>, in three
  parts: the long-flag branch, the short-flag branch of the short-arg mode, and the
  dispatch around them.
\<close>

definition long_flag :: "app_h \<Rightarrow> nat \<Rightarrow> cmdapp \<Rightarrow> fault + outcome" where
  "long_flag c i app =
     (let current = argv app ! i;
          arg = strchr current (CHR ''='');
          app1 = (case arg of
                    None \<Rightarrow> app
                  | Some p \<Rightarrow> app\<lparr>argv := (argv app)[i := current[p := NUL]]\<rparr>);
          current1 = argv app1 ! i
      in case cmdapp_search app1 NUL (Some (cstr (drop 2 current1))) of
           Inl f \<Rightarrow> Inl f
         | Inr (Some k) \<Rightarrow>
             if opt_flags app1 k OR CMDOPT_TAKESARG c \<noteq> 0 then
               (case arg of
                  None \<Rightarrow>
                    Inr (Return EXIT_FAILURE
                           (Stderr (Expects_an_argument (cstr current1))) app1)
                | Some p \<Rightarrow>
                    Inr (Continue i False
                           (set_exists c k (set_value k (Some (i, Suc p)) app1))))
             else
               (case arg of
                  Some p \<Rightarrow>
                    Inr (Return EXIT_FAILURE
                           (Stderr (Does_not_take_arguments (cstr current1))) app1)
                | None \<Rightarrow> Inr (Continue i False (set_exists c k app1)))
         | Inr None \<Rightarrow>
             if cstr current1 = ''--help'' then
               (case cmdapp_print_help c app1 of
                  Inl f \<Rightarrow> Inl f
                | Inr txt \<Rightarrow> Inr (Return EXIT_SUCCESS (Stdout txt) app1))
             else if cstr current1 = ''--version'' then
               Inr (Return EXIT_SUCCESS (Stdout (cmdapp_print_version app1)) app1)
             else
               Inr (Return EXIT_FAILURE
                      (Stderr (Unrecognized_option (cstr current1))) app1))"

definition shortarg_flag :: "app_h \<Rightarrow> nat \<Rightarrow> nat option \<Rightarrow> cmdapp \<Rightarrow> fault + outcome" where
  "shortarg_flag c i nxt app =
     (let current = argv app ! i in
      case cmdapp_search app (byte current 1) None of
        Inl f \<Rightarrow> Inl f
      | Inr (Some k) \<Rightarrow>
          let app1 = set_value k None app in
          if opt_flags app1 k OR CMDOPT_TAKESARG c \<noteq> 0 then
            (let app2 = set_value k (Some (i, 2)) app1 in
             if nxt \<noteq> None \<and> byte (argv app2 ! the nxt) 0 \<noteq> CHR ''-'' then
               Inr (Continue (Suc i) False
                      (set_exists c k (set_value k (Some (the nxt, 0)) app2)))
             else
               Inr (Return EXIT_FAILURE
                      (Stderr (Expects_an_argument [CHR ''-'', byte current 1])) app2))
          else if length current < 2 then Inl OutOfBounds
          else if byte current 2 \<noteq> NUL
                  \<or> (nxt \<noteq> None \<and> byte (argv app1 ! the nxt) 0 \<noteq> CHR ''-'') then
            Inr (Return EXIT_FAILURE
                   (Stderr (Does_not_take_arguments [CHR ''-'', byte current 1])) app1)
          else Inr (Continue i False (set_exists c k app1))
      | Inr None \<Rightarrow>
          Inr (Return EXIT_FAILURE
                 (Stderr (Unrecognized_option [CHR ''-'', byte current 1])) app))"

definition cmdapp_step :: "app_h \<Rightarrow> nat \<Rightarrow> bool \<Rightarrow> cmdapp \<Rightarrow> fault + outcome" where
  "cmdapp_step c i only_args app =
     (let current = argv app ! i in
      if only_args then
        (case APPEND_ARG app (i, 0) of
           Inl f \<Rightarrow> Inl f
         | Inr app' \<Rightarrow> Inr (Continue i True app'))
      else
        let nxt = (if Suc i < length (argv app) then Some (Suc i) else None) in
        if IS_END_OF_FLAGS current then Inr (Continue i True app)
        else if IS_LONG_FLAG current then long_flag c i app
        else if IS_SHORT_FLAG current then
          (if mode app OR CMDAPP_MODE_SHORTARG c \<noteq> 0 then shortarg_flag c i nxt app
           else multiflag_loop current i nxt 1 i app)
        else
          (case APPEND_ARG app (i, 0) of
             Inl f \<Rightarrow> Inl f
           | Inr app' \<Rightarrow> Inr (Continue i False app')))"

text \<open>
  The \<open>for\<close> loop of \<open>cmdapp_run\<close>. It ends because a pass never lowers \<open>i\<close> and never
  changes the number of tokens.
\<close>

function run_loop ::
  "app_h \<Rightarrow> nat \<Rightarrow> bool \<Rightarrow> cmdapp \<Rightarrow> fault + (exit_status \<times> printed \<times> cmdapp)" where
  "run_loop c i only_args app =
     (if i < length (argv app) then
        (case cmdapp_step c i only_args app of
           Inl f \<Rightarrow> Inl f
         | Inr (Return st out app') \<Rightarrow> Inr (st, out, app')
         | Inr (Continue i' only_args' app') \<Rightarrow> run_loop c (Suc i') only_args' app')
      else Inr (EXIT_SUCCESS, Silent, app))"
  by pat_completeness auto
termination
proof (relation "measure (\<lambda>(c, i, only_args, app). length (argv app) - i)")
  show "wf (measure (\<lambda>(c, i, only_args, app). length (argv app) - i))" by simp
next
  fix c :: app_h and i only_args app x2 i' oa' app'
  assume lt: "i < length (argv app)"
    and st: "cmdapp_step c i only_args app = Inr x2"
    and x2: "x2 = Continue i' oa' app'"
  have mf: "multiflag_loop current cur nxt j n a = Inr (Continue n' oa a')
            \<Longrightarrow> n \<le> n' \<and> length (argv a') = length (argv a)"
    for current cur nxt j n a n' oa a'
  proof (induction current cur nxt j n a rule: multiflag_loop.induct)
    case (1 current cur nxt j n a)
    show ?case
      using "1.prems" "1.IH"
      by (simp add: multiflag_loop.simps[of current cur nxt j n a] Let_def set_value_def
               del: One_nat_def split: if_splits sum.splits option.splits) fastforce+
  qed
  have "i \<le> i' \<and> length (argv app') = length (argv app)"
    using st x2
    unfolding cmdapp_step_def long_flag_def shortarg_flag_def
    by (auto simp: Let_def set_value_def set_exists_def APPEND_ARG_def
             split: if_splits sum.splits option.splits dest!: mf)
  then show "((c, Suc i', oa', app'), (c, i, only_args, app))
        \<in> measure (\<lambda>(c, i, only_args, app). length (argv app) - i)"
    using lt by auto
qed

declare run_loop.simps [simp del]

text \<open>
  \<open>cmdapp_run\<close>. Before the loop the positional buffer is made ready and empty: a
  buffer left by an earlier run is kept and its \<open>length\<close> set to 0, a fresh one is
  allocated otherwise (its \<open>length\<close> is still the 0 of \<open>cmdapp_init\<close>).
\<close>

definition cmdapp_run :: "app_h \<Rightarrow> cmdapp \<Rightarrow> fault + (exit_status \<times> printed \<times> cmdapp)" where
  "cmdapp_run c app =
     run_loop c 0 False
       (case args app of
          Some ps \<Rightarrow> app\<lparr>args := Some []\<rparr>
        | None \<Rightarrow> app\<lparr>args := Some []\<rparr>)"

definition cmdapp_getargs :: "cmdapp \<Rightarrow> ptr list option" where
  "cmdapp_getargs app = args app"

section \<open>What a caller reads after a scan\<close>

text \<open>
  The option's \<open>CMDOPT_EXISTS\<close> bit, its value and the positional arguments as strings.
  The strings are read in the storage of the vector that the state holds, which is
  where the pointers stored by a scan of that vector point. A pointer that was stored
  by a scan of another vector is an address in that other vector's storage and is read
  there, with \<open>cstr_at\<close>.
\<close>

definition seen :: "app_h \<Rightarrow> cmdapp \<Rightarrow> nat \<Rightarrow> bool" where
  "seen c app k \<longleftrightarrow> opt_flags app k AND CMDOPT_EXISTS c \<noteq> 0"

definition value_string :: "cmdapp \<Rightarrow> nat \<Rightarrow> string option" where
  "value_string app k = map_option (cstr_at (argv app)) (opt_value app k)"

definition positionals :: "cmdapp \<Rightarrow> string list option" where
  "positionals app = map_option (map (cstr_at (argv app))) (cmdapp_getargs app)"

section \<open>Auxiliary definitions for the proofs\<close>

text \<open>The application state that an outcome of the loop body carries.\<close>

fun app_of :: "outcome \<Rightarrow> cmdapp" where
  "app_of (Continue i only_args a) = a"
| "app_of (Return st out a) = a"

text \<open>The addresses of the tokens \<open>i\<close> to \<open>n - 1\<close>, in order.\<close>

definition tokens_from :: "nat \<Rightarrow> nat \<Rightarrow> ptr list" where
  "tokens_from i n = map (\<lambda>k. (k, 0)) [i..<n]"

text \<open>
  The head of the loop of \<open>cmdapp_run\<close> is the point where the loop test is made; its
  state is the value of \<open>i\<close>, the value of \<open>only_args\<close> and the application state.
  \<open>loop_after c n s\<close> is the head that the loop, being at the head \<open>s\<close>, is at after
  \<open>n\<close> more complete passes through its body, if it makes that many.
\<close>

fun loop_after ::
  "app_h \<Rightarrow> nat \<Rightarrow> nat \<times> bool \<times> cmdapp \<Rightarrow> (nat \<times> bool \<times> cmdapp) option" where
  "loop_after c 0 s = Some s"
| "loop_after c (Suc n) (i, only_args, app) =
     (if i < length (argv app) then
        (case cmdapp_step c i only_args app of
           Inr (Continue i' only_args' app') \<Rightarrow> loop_after c n (Suc i', only_args', app')
         | _ \<Rightarrow> None)
      else None)"

text \<open>The long-flag branch after the split at \<open>=\<close>, as a function of the split state.\<close>

definition long_flag_rest :: "app_h \<Rightarrow> nat \<Rightarrow> nat option \<Rightarrow> cmdapp \<Rightarrow> fault + outcome" where
  "long_flag_rest c i arg app1 =
     (case cmdapp_search app1 NUL (Some (cstr (drop 2 (argv app1 ! i)))) of
        Inl f \<Rightarrow> Inl f
      | Inr (Some k) \<Rightarrow>
          if opt_flags app1 k OR CMDOPT_TAKESARG c \<noteq> 0 then
            (case arg of
               None \<Rightarrow>
                 Inr (Return EXIT_FAILURE
                        (Stderr (Expects_an_argument (cstr (argv app1 ! i)))) app1)
             | Some p \<Rightarrow>
                 Inr (Continue i False
                        (set_exists c k (set_value k (Some (i, Suc p)) app1))))
          else
            (case arg of
               Some p \<Rightarrow>
                 Inr (Return EXIT_FAILURE
                        (Stderr (Does_not_take_arguments (cstr (argv app1 ! i)))) app1)
             | None \<Rightarrow> Inr (Continue i False (set_exists c k app1)))
      | Inr None \<Rightarrow>
          if cstr (argv app1 ! i) = ''--help'' then
            (case cmdapp_print_help c app1 of
               Inl f \<Rightarrow> Inl f
             | Inr txt \<Rightarrow> Inr (Return EXIT_SUCCESS (Stdout txt) app1))
          else if cstr (argv app1 ! i) = ''--version'' then
            Inr (Return EXIT_SUCCESS (Stdout (cmdapp_print_version app1)) app1)
          else
            Inr (Return EXIT_FAILURE
                   (Stderr (Unrecognized_option (cstr (argv app1 ! i)))) app1))"

subsection \<open>Relations between two runs\<close>

text \<open>
  Used to compare two runs of the scanner. \<open>same_option\<close>: two registry entries with the
  same names and description that answer the test \<open>flags | CMDOPT_TAKESARG\<close> alike.
  \<open>upd_value\<close> and \<open>upd_exists\<close>: the two writes the loop makes through
  \<open>arg_int->result\<close>, on the entry \<open>k\<close> of a registry. \<open>entry_rel_ok\<close>: a relation
  between two registries that relates only registries whose entries are the same
  options, and that is kept when both registries take the same write at the same entry.
  \<open>sim\<close>: two application states that agree on the first \<open>n\<close> tokens (on all of
  them when \<open>full\<close>), on mode, program information and positional list, and whose
  registries are related. \<open>sim_outcome\<close>: what a pass from the second
  state must do, given what the pass from the first did (a fault or a successful
  return only has to be matched when the states agree on the whole vector).
  \<open>kept\<close>: an entry after some passes of the loop, against the entry before.
\<close>

definition same_option :: "app_h \<Rightarrow> cmdarg_internal \<Rightarrow> cmdarg_internal \<Rightarrow> bool" where
  "same_option c e e' \<longleftrightarrow>
     shorto (result e) = shorto (result e') \<and> longo (result e) = longo (result e')
     \<and> description e = description e'
     \<and> ((flags (result e) OR CMDOPT_TAKESARG c \<noteq> 0)
          = (flags (result e') OR CMDOPT_TAKESARG c \<noteq> 0))"

definition upd_value :: "nat \<Rightarrow> ptr option \<Rightarrow> cmdarg_internal list \<Rightarrow> cmdarg_internal list" where
  "upd_value k p es = es[k := (es ! k)\<lparr>result := (result (es ! k))\<lparr>value_ptr := p\<rparr>\<rparr>]"

definition upd_exists :: "app_h \<Rightarrow> nat \<Rightarrow> cmdarg_internal list \<Rightarrow> cmdarg_internal list" where
  "upd_exists c k es =
     es[k := (es ! k)\<lparr>result := (result (es ! k))
                        \<lparr>flags := flags (result (es ! k)) OR CMDOPT_EXISTS c\<rparr>\<rparr>]"

definition entry_rel_ok ::
  "app_h \<Rightarrow> (cmdarg_internal list \<Rightarrow> cmdarg_internal list \<Rightarrow> bool) \<Rightarrow> bool" where
  "entry_rel_ok c E \<longleftrightarrow>
     (\<forall>es es'. E es es' \<longrightarrow>
        list_all2 (same_option c) es es'
        \<and> (\<forall>k p. k < length es \<longrightarrow> E (upd_value k p es) (upd_value k p es'))
        \<and> (\<forall>k. k < length es \<longrightarrow> E (upd_exists c k es) (upd_exists c k es')))"

definition sim ::
  "(cmdarg_internal list \<Rightarrow> cmdarg_internal list \<Rightarrow> bool)
   \<Rightarrow> nat \<Rightarrow> bool \<Rightarrow> cmdapp \<Rightarrow> cmdapp \<Rightarrow> bool" where
  "sim E n full a b \<longleftrightarrow>
     take n (argv a) = take n (argv b) \<and> (full \<longrightarrow> argv a = argv b)
     \<and> mode a = mode b \<and> info a = info b \<and> args a = args b
     \<and> E (start a) (start b)"

fun sim_outcome ::
  "(cmdarg_internal list \<Rightarrow> cmdarg_internal list \<Rightarrow> bool) \<Rightarrow> nat \<Rightarrow> bool
   \<Rightarrow> fault + outcome \<Rightarrow> fault + outcome \<Rightarrow> bool" where
  "sim_outcome E n full (Inl f) y = (full \<longrightarrow> y = Inl f)"
| "sim_outcome E n full (Inr (Continue i oa a)) y
     = (\<exists>b. y = Inr (Continue i oa b) \<and> sim E n full a b)"
| "sim_outcome E n full (Inr (Return st out a)) y
     = (full \<or> st = EXIT_FAILURE \<longrightarrow> (\<exists>b. y = Inr (Return st out b) \<and> sim E n full a b))"

text \<open>
  \<open>rescan_rel\<close> relates the registry \<open>es\<close> of a scan that starts from the registry \<open>R\<close>
  to the registry \<open>es'\<close> of the scan of the same vector that starts from the registry
  \<open>S\<close>: the entries are the same options, the flags of \<open>es'\<close> are those of \<open>es\<close>
  together with those of \<open>S\<close>, and a value is either the same in both or still the
  one the scan started with, in both.
\<close>

definition rescan_rel ::
  "app_h \<Rightarrow> cmdarg_internal list \<Rightarrow> cmdarg_internal list
   \<Rightarrow> cmdarg_internal list \<Rightarrow> cmdarg_internal list \<Rightarrow> bool" where
  "rescan_rel c R S es es' \<longleftrightarrow>
     list_all2 (same_option c) es es' \<and> length R = length es \<and> length S = length es
     \<and> (\<forall>k<length es.
          flags (result (es' ! k)) = flags (result (es ! k)) OR flags (result (S ! k))
          \<and> (value_ptr (result (es' ! k)) = value_ptr (result (es ! k))
             \<or> (value_ptr (result (es ! k)) = value_ptr (result (R ! k))
                \<and> value_ptr (result (es' ! k)) = value_ptr (result (S ! k)))))"

definition kept :: "cmdarg_internal \<Rightarrow> cmdarg_internal \<Rightarrow> bool" where
  "kept e e' \<longleftrightarrow>
     shorto (result e') = shorto (result e) \<and> longo (result e') = longo (result e)
     \<and> description e' = description e
     \<and> flags (result e) OR flags (result e') = flags (result e')"

definition kept_app :: "cmdapp \<Rightarrow> cmdapp \<Rightarrow> bool" where
  "kept_app a a' \<longleftrightarrow>
     mode a' = mode a \<and> info a' = info a \<and> (args a \<noteq> None \<longrightarrow> args a' \<noteq> None)
     \<and> list_all2 kept (start a) (start a')"

section \<open>A sample application\<close>

text \<open>
  Sample values for the constants of app.h (distinct single bits for the option flags,
  a non-zero short-arg mode), and a registry with a boolean option \<open>-v\<close>/\<open>--verbose\<close>
  at index 0 and an argument-taking option \<open>-o\<close>/\<open>--out\<close> at index 1.
\<close>

definition example_h :: app_h where
  "example_h = \<lparr>CMDOPT_TAKESARG = 1, CMDOPT_EXISTS = 2, CMDAPP_MODE_SHORTARG = 1\<rparr>"

definition example_info :: cmdapp_info where
  "example_info =
     \<lparr>program = ''prog'', synopses = None, info_description = ''sample'',
      version = ''1.0'', author = ''nobody'', year = 2021, ver_extra = []\<rparr>"

definition example_app :: "string list \<Rightarrow> cmdapp" where
  "example_app av =
     cmdapp_set
       (cmdapp_set (cmdapp_init av 1 example_info)
          (CHR ''v'') (Some ''verbose'') 0 None ''be verbose'')
       (CHR ''o'') (Some ''out'') 1 None ''output file''"

text \<open>The states the sample scans of \<open>--out=x\<close> end in.\<close>

definition example_after_out :: cmdapp where
  "example_after_out =
     set_exists example_h 1 (set_value 1 (Some (1, 6))
       ((example_app [''prog'', ''--out'' @ NUL # ''x''])\<lparr>args := Some [(0, 0)]\<rparr>))"

definition example_failed :: cmdapp where
  "example_failed =
     set_exists example_h 1 (set_value 1 (Some (2, 6))
       ((example_app [''prog'', ''a'', ''--out'' @ NUL # ''x'', ''--bogus''])
          \<lparr>args := Some [(0, 0), (1, 0)]\<rparr>))"

text \<open>
  Sample constants with a zero short-arg mode, under which mode 0 reaches the multi-flag
  loop, and a registry with the single option \<open>-a\<close>.
\<close>

definition example_h0 :: app_h where
  "example_h0 = \<lparr>CMDOPT_TAKESARG = 1, CMDOPT_EXISTS = 2, CMDAPP_MODE_SHORTARG = 0\<rparr>"

definition example_multi :: "string list \<Rightarrow> cmdapp" where
  "example_multi av = cmdapp_set (cmdapp_init av 0 example_info) (CHR ''a'') None 0 None ''all''"

text \<open>
  The same registry with an option that has a short name only, \<open>-x\<close>, registered
  before \<open>-o\<close>/\<open>--out\<close>.
\<close>

definition example_short_first :: "string list \<Rightarrow> cmdapp" where
  "example_short_first av =
     cmdapp_set
       (cmdapp_set (cmdapp_init av 1 example_info)
          (CHR ''x'') None 0 None ''extra'')
       (CHR ''o'') (Some ''out'') 1 None ''output file''"

section \<open>Unfolding the loops\<close>

lemma run_loop_done:
  "\<not> i < length (argv app) \<Longrightarrow> run_loop c i oa app = Inr (EXIT_SUCCESS, Silent, app)"
  by (simp add: run_loop.simps[of c i oa app])

lemma run_loop_Continue:
  "i < length (argv app) \<Longrightarrow> cmdapp_step c i oa app = Inr (Continue i' oa' app')
   \<Longrightarrow> run_loop c i oa app = run_loop c (Suc i') oa' app'"
  by (simp add: run_loop.simps[of c i oa app])

lemma run_loop_Return:
  "i < length (argv app) \<Longrightarrow> cmdapp_step c i oa app = Inr (Return st out app')
   \<Longrightarrow> run_loop c i oa app = Inr (st, out, app')"
  by (simp add: run_loop.simps[of c i oa app])

lemma run_loop_fault:
  "i < length (argv app) \<Longrightarrow> cmdapp_step c i oa app = Inl f
   \<Longrightarrow> run_loop c i oa app = Inl f"
  by (simp add: run_loop.simps[of c i oa app])

section \<open>C strings and registry updates\<close>

lemma NUL_neq [simp]:
  "CHR ''='' \<noteq> NUL" "CHR ''-'' \<noteq> NUL" "NUL \<noteq> CHR ''=''" "NUL \<noteq> CHR ''-''"
  by (simp_all add: NUL_def)

lemma strchr_None: "ch \<noteq> NUL \<Longrightarrow> ch \<notin> set xs \<Longrightarrow> strchr xs ch = None"
  by (induction xs) auto

lemma strchr_Some_append:
  "ch \<noteq> NUL \<Longrightarrow> ch \<notin> set xs \<Longrightarrow> NUL \<notin> set xs
   \<Longrightarrow> strchr (xs @ ch # ys) ch = Some (length xs)"
  by (induction xs) auto

lemma strchr_SomeD:
  "strchr xs ch = Some p \<Longrightarrow> ch \<noteq> NUL \<Longrightarrow> p < length xs \<and> xs ! p = ch"
proof (induction xs arbitrary: p)
  case Nil
  then show ?case by simp
next
  case (Cons x xs)
  then show ?case by (auto split: if_splits)
qed

lemma cstr_id: "NUL \<notin> set xs \<Longrightarrow> cstr xs = xs"
  by (auto simp: cstr_def takeWhile_eq_all_conv)

lemma cstr_append_NUL: "NUL \<notin> set xs \<Longrightarrow> cstr (xs @ NUL # ys) = xs"
  by (auto simp: cstr_def takeWhile_tail)

lemma byte_simps [simp]:
  "byte (x # xs) 0 = x"
  "byte (x # y # xs) 1 = y"
  "byte (x # y # xs) (Suc 0) = y"
  by (simp_all add: byte_def)

lemma byte_2_name:
  "name \<noteq> [] \<Longrightarrow> NUL \<notin> set name \<Longrightarrow> byte (x # y # name @ rest) 2 \<noteq> NUL"
  by (cases name) (auto simp: byte_def)

lemma search_long_bounds:
  "search_long lo es n = Inr (Some k) \<Longrightarrow> n \<le> k \<and> k < n + length es"
proof (induction es arbitrary: n)
  case Nil
  then show ?case by simp
next
  case (Cons e es)
  then show ?case by (fastforce split: option.splits if_splits)
qed

lemma search_short_bounds:
  "search_short sh es n = Some k \<Longrightarrow> n \<le> k \<and> k < n + length es"
proof (induction es arbitrary: n)
  case Nil
  then show ?case by simp
next
  case (Cons e es)
  then show ?case by (fastforce split: if_splits)
qed

lemma cmdapp_search_bound:
  "cmdapp_search app sh lo = Inr (Some k) \<Longrightarrow> k < length (start app)"
  by (auto simp: cmdapp_search_def split: option.splits
           dest: search_long_bounds search_short_bounds)

lemma search_long_None_iff:
  "search_long lo es n = Inr None
   \<longleftrightarrow> (\<forall>e\<in>set es. \<exists>l. longo (result e) = Some l \<and> l \<noteq> lo)"
  by (induction es arbitrary: n) (auto split: option.splits)

lemma cmdapp_search_None_iff:
  "cmdapp_search app sh (Some lo) = Inr None
   \<longleftrightarrow> (\<forall>e\<in>set (start app). \<exists>l. longo (result e) = Some l \<and> l \<noteq> lo)"
  by (simp add: cmdapp_search_def search_long_None_iff)

lemma cmdapp_search_argv [simp]:
  "cmdapp_search (app\<lparr>argv := av\<rparr>) sh lo = cmdapp_search app sh lo"
  by (simp add: cmdapp_search_def split: option.splits)

lemma opt_flags_argv [simp]: "opt_flags (app\<lparr>argv := av\<rparr>) k = opt_flags app k"
  by (simp add: opt_flags_def)

lemma and_nonzero_or_nonzero: "(f::8 word) AND t \<noteq> 0 \<Longrightarrow> f OR t \<noteq> 0"
  by (auto simp: or_eq_0_iff)

lemma set_value_simps [simp]:
  "argv (set_value k p app) = argv app"
  "args (set_value k p app) = args app"
  "mode (set_value k p app) = mode app"
  "info (set_value k p app) = info app"
  "length (start (set_value k p app)) = length (start app)"
  by (simp_all add: set_value_def)

lemma set_exists_simps [simp]:
  "argv (set_exists c k app) = argv app"
  "args (set_exists c k app) = args app"
  "mode (set_exists c k app) = mode app"
  "info (set_exists c k app) = info app"
  "length (start (set_exists c k app)) = length (start app)"
  by (simp_all add: set_exists_def)

lemma opt_value_set_value:
  "k < length (start app)
   \<Longrightarrow> opt_value (set_value k p app) j = (if j = k then p else opt_value app j)"
  by (simp add: opt_value_def set_value_def)

lemma opt_flags_set_value [simp]:
  "opt_flags (set_value k p app) j = opt_flags app j"
  by (cases "k < length (start app)"; cases "j = k")
     (simp_all add: opt_flags_def set_value_def not_less list_update_beyond)

lemma opt_value_set_exists [simp]:
  "opt_value (set_exists c k app) j = opt_value app j"
  by (cases "k < length (start app)"; cases "j = k")
     (simp_all add: opt_value_def set_exists_def not_less list_update_beyond)

lemma opt_flags_set_exists:
  "k < length (start app) \<Longrightarrow>
   opt_flags (set_exists c k app) j
   = (if j = k then opt_flags app k OR CMDOPT_EXISTS c else opt_flags app j)"
  by (simp add: opt_flags_def set_exists_def)

section \<open>The branches of the loop body\<close>

lemma step_long:
  "IS_LONG_FLAG (argv app ! i) \<Longrightarrow> \<not> IS_END_OF_FLAGS (argv app ! i)
   \<Longrightarrow> cmdapp_step c i False app = long_flag c i app"
  by (simp add: cmdapp_step_def)

lemma long_flag_found_noarg:
  "strchr (argv app ! i) (CHR ''='') = None
   \<Longrightarrow> cmdapp_search app NUL (Some (cstr (drop 2 (argv app ! i)))) = Inr (Some k)
   \<Longrightarrow> long_flag c i app
       = (if opt_flags app k OR CMDOPT_TAKESARG c \<noteq> 0
          then Inr (Return EXIT_FAILURE (Stderr (Expects_an_argument (cstr (argv app ! i)))) app)
          else Inr (Continue i False (set_exists c k app)))"
  by (simp add: long_flag_def Let_def)

lemma long_flag_found_arg:
  "i < length (argv app) \<Longrightarrow> strchr (argv app ! i) (CHR ''='') = Some p
   \<Longrightarrow> cmdapp_search app NUL (Some (cstr (drop 2 ((argv app ! i)[p := NUL])))) = Inr (Some k)
   \<Longrightarrow> long_flag c i app
       = (if opt_flags app k OR CMDOPT_TAKESARG c \<noteq> 0
          then Inr (Continue i False
                 (set_exists c k (set_value k (Some (i, Suc p))
                    (app\<lparr>argv := (argv app)[i := (argv app ! i)[p := NUL]]\<rparr>))))
          else Inr (Return EXIT_FAILURE
                 (Stderr (Does_not_take_arguments (cstr ((argv app ! i)[p := NUL]))))
                 (app\<lparr>argv := (argv app)[i := (argv app ! i)[p := NUL]]\<rparr>)))"
  by (simp add: long_flag_def Let_def)

lemmas eval_defs =
  cmdapp_run_def cmdapp_set_def cmdapp_init_def cmdapp_append_def cmdapp_step_def
  long_flag_def shortarg_flag_def cmdapp_search_def APPEND_ARG_def IS_END_OF_FLAGS_def
  IS_LONG_FLAG_def IS_SHORT_FLAG_def byte_def cstr_def NUL_def set_value_def set_exists_def
  opt_flags_def opt_value_def

lemmas example_defs =
  example_app_def example_h_def cmdapp_set_def cmdapp_init_def cmdapp_append_def

lemma END_OF_FLAGS_is_LONG: "IS_END_OF_FLAGS str \<Longrightarrow> IS_LONG_FLAG str"
  by (simp add: IS_END_OF_FLAGS_def IS_LONG_FLAG_def)

lemma step_short:
  "IS_SHORT_FLAG (argv app ! i) \<Longrightarrow> \<not> IS_LONG_FLAG (argv app ! i)
   \<Longrightarrow> cmdapp_step c i False app
       = (if mode app OR CMDAPP_MODE_SHORTARG c \<noteq> 0
          then shortarg_flag c i (if Suc i < length (argv app) then Some (Suc i) else None) app
          else multiflag_loop (argv app ! i) i
                 (if Suc i < length (argv app) then Some (Suc i) else None) 1 i app)"
proof -
  assume a: "IS_SHORT_FLAG (argv app ! i)" "\<not> IS_LONG_FLAG (argv app ! i)"
  from a(2) have "\<not> IS_END_OF_FLAGS (argv app ! i)"
    by (rule contrapos_nn) (rule END_OF_FLAGS_is_LONG)
  with a show ?thesis by (simp add: cmdapp_step_def Let_def)
qed

lemma shortarg_flag_found:
  "cmdapp_search app (byte (argv app ! i) 1) None = Inr (Some k)
   \<Longrightarrow> opt_flags app k OR CMDOPT_TAKESARG c \<noteq> 0
   \<Longrightarrow> shortarg_flag c i nxt app
       = (if nxt \<noteq> None \<and> byte (argv app ! the nxt) 0 \<noteq> CHR ''-''
          then Inr (Continue (Suc i) False
                 (set_exists c k (set_value k (Some (the nxt, 0))
                    (set_value k (Some (i, 2)) (set_value k None app)))))
          else Inr (Return EXIT_FAILURE
                 (Stderr (Expects_an_argument [CHR ''-'', byte (argv app ! i) 1]))
                 (set_value k (Some (i, 2)) (set_value k None app))))"
  by (simp add: shortarg_flag_def Let_def)

lemma long_flag_notfound:
  "strchr (argv app ! i) (CHR ''='') = None
   \<Longrightarrow> cmdapp_search app NUL (Some (cstr (drop 2 (argv app ! i)))) = Inr None
   \<Longrightarrow> long_flag c i app
       = (if cstr (argv app ! i) = ''--help'' then
            (case cmdapp_print_help c app of
               Inl f \<Rightarrow> Inl f
             | Inr txt \<Rightarrow> Inr (Return EXIT_SUCCESS (Stdout txt) app))
          else if cstr (argv app ! i) = ''--version'' then
            Inr (Return EXIT_SUCCESS (Stdout (cmdapp_print_version app)) app)
          else Inr (Return EXIT_FAILURE (Stderr (Unrecognized_option (cstr (argv app ! i)))) app))"
  by (simp add: long_flag_def Let_def split: sum.splits)

lemma help_token:
  "IS_LONG_FLAG ''--help''" "\<not> IS_END_OF_FLAGS ''--help''"
  "strchr ''--help'' (CHR ''='') = None" "cstr ''--help'' = ''--help''"
  "cstr (drop 2 ''--help'') = ''help''"
  by (simp_all add: IS_LONG_FLAG_def IS_END_OF_FLAGS_def byte_def cstr_def NUL_def)

lemma version_token:
  "IS_LONG_FLAG ''--version''" "\<not> IS_END_OF_FLAGS ''--version''"
  "strchr ''--version'' (CHR ''='') = None" "cstr ''--version'' = ''--version''"
  "cstr (drop 2 ''--version'') = ''version''"
  by (simp_all add: IS_LONG_FLAG_def IS_END_OF_FLAGS_def byte_def cstr_def NUL_def)

lemma cstr_update_NUL:
  "strchr xs ch = Some p \<Longrightarrow> ch \<noteq> NUL \<Longrightarrow> cstr (xs[p := NUL]) = take p xs"
proof (induction xs arbitrary: p)
  case Nil
  then show ?case by simp
next
  case (Cons x xs)
  then show ?case by (auto simp: cstr_def split: if_splits)
qed

lemma long_flag_argv:
  "long_flag c i app = Inr r
   \<Longrightarrow> argv (app_of r)
       = (case strchr (argv app ! i) (CHR ''='') of
            None \<Rightarrow> argv app
          | Some p \<Rightarrow> (argv app)[i := (argv app ! i)[p := NUL]])"
  by (auto simp: long_flag_def Let_def split: sum.splits option.splits if_splits)

lemma opt_value_set_value_gen:
  "opt_value (set_value k p app) j
   = (if j = k \<and> k < length (start app) then p else opt_value app j)"
  by (cases "k < length (start app)")
     (simp_all add: opt_value_def set_value_def not_less list_update_beyond)

lemma opt_value_argv [simp]: "opt_value (app\<lparr>argv := av\<rparr>) k = opt_value app k"
  by (simp add: opt_value_def)

lemma opt_value_args [simp]: "opt_value (app\<lparr>args := ps\<rparr>) k = opt_value app k"
  by (simp add: opt_value_def)

lemma long_flag_values:
  "long_flag c i app = Inr r \<Longrightarrow> opt_value (app_of r) k = Some ptr
   \<Longrightarrow> opt_value app k = Some ptr
       \<or> (\<exists>q. strchr (argv app ! i) (CHR ''='') = Some q \<and> ptr = (i, Suc q))"
  by (auto simp: long_flag_def Let_def opt_value_set_value_gen
           split: sum.splits option.splits if_splits)

lemma shortarg_flag_values:
  "shortarg_flag c i nxt app = Inr r \<Longrightarrow> opt_value (app_of r) k = Some ptr
   \<Longrightarrow> opt_value app k = Some ptr \<or> ptr = (i, 2) \<or> (\<exists>n. nxt = Some n \<and> ptr = (n, 0))"
  by (auto simp: shortarg_flag_def Let_def opt_value_set_value_gen
           split: sum.splits option.splits if_splits)

lemma multiflag_loop_values:
  "multiflag_loop current cur nxt j n app = Inr r \<Longrightarrow> opt_value (app_of r) k = Some ptr
   \<Longrightarrow> opt_value app k = Some ptr \<or> ptr = (cur, 2) \<or> (\<exists>n. nxt = Some n \<and> ptr = (n, 0))"
proof (induction current cur nxt j n app rule: multiflag_loop.induct)
  case (1 current cur nxt j n app)
  show ?case
    using "1.prems" "1.IH"
    by (simp add: multiflag_loop.simps[of current cur nxt j n app] Let_def
             del: One_nat_def split: if_splits sum.splits option.splits)
       (fastforce simp: opt_value_set_value_gen split: if_splits)+
qed

lemma step_values:
  assumes "cmdapp_step c i only_args app = Inr r" "opt_value (app_of r) k = Some ptr"
  shows "opt_value app k = Some ptr \<or> ptr = (i, 2)
         \<or> (Suc i < length (argv app) \<and> ptr = (Suc i, 0))
         \<or> (\<exists>q. strchr (argv app ! i) (CHR ''='') = Some q \<and> ptr = (i, Suc q))"
  using assms
  unfolding cmdapp_step_def Let_def
  by (auto simp: APPEND_ARG_def split: if_splits sum.splits option.splits
           dest: long_flag_values shortarg_flag_values multiflag_loop_values)


section \<open>Runs of positional tokens\<close>

lemma step_only_args:
  "args app = Some ps
   \<Longrightarrow> cmdapp_step c i True app = Inr (Continue i True (app\<lparr>args := Some (ps @ [(i, 0)])\<rparr>))"
  by (simp add: cmdapp_step_def APPEND_ARG_def)

lemma LONG_is_SHORT: "IS_LONG_FLAG str \<Longrightarrow> IS_SHORT_FLAG str"
  by (simp add: IS_LONG_FLAG_def IS_SHORT_FLAG_def)

lemma step_plain:
  assumes "args app = Some ps" "\<not> IS_SHORT_FLAG (argv app ! i)"
  shows "cmdapp_step c i False app
         = Inr (Continue i False (app\<lparr>args := Some (ps @ [(i, 0)])\<rparr>))"
proof -
  from assms(2) have "\<not> IS_LONG_FLAG (argv app ! i)" "\<not> IS_END_OF_FLAGS (argv app ! i)"
    by (auto dest: LONG_is_SHORT END_OF_FLAGS_is_LONG)
  with assms show ?thesis by (simp add: cmdapp_step_def APPEND_ARG_def)
qed

lemma step_end_of_flags:
  "IS_END_OF_FLAGS (argv app ! i) \<Longrightarrow> cmdapp_step c i False app = Inr (Continue i True app)"
  by (simp add: cmdapp_step_def)

lemma tokens_from_step: "i < n \<Longrightarrow> tokens_from i n = (i, 0) # tokens_from (Suc i) n"
  by (simp add: tokens_from_def upt_conv_Cons)

lemma tokens_from_empty: "\<not> i < n \<Longrightarrow> tokens_from i n = []"
  by (simp add: tokens_from_def)

lemma run_loop_only_args:
  "args app = Some ps
   \<Longrightarrow> run_loop c i True app
       = Inr (EXIT_SUCCESS, Silent,
              app\<lparr>args := Some (ps @ tokens_from i (length (argv app)))\<rparr>)"
proof (induction "length (argv app) - i" arbitrary: i ps app)
  case 0
  then have "\<not> i < length (argv app)" by simp
  with "0.prems" show ?case by (simp add: run_loop_done tokens_from_empty)
next
  case (Suc n)
  then have lt: "i < length (argv app)" by simp
  let ?a = "app\<lparr>args := Some (ps @ [(i, 0)])\<rparr>"
  have "run_loop c i True app = run_loop c (Suc i) True ?a"
    by (rule run_loop_Continue[OF lt step_only_args[OF Suc.prems]])
  also have "\<dots> = Inr (EXIT_SUCCESS, Silent,
                ?a\<lparr>args := Some ((ps @ [(i, 0)]) @ tokens_from (Suc i) (length (argv ?a)))\<rparr>)"
    using Suc.hyps(2) by (intro Suc.hyps(1)) simp_all
  finally show ?case using lt by (simp add: tokens_from_step)
qed

lemma run_loop_plain:
  "args app = Some ps
   \<Longrightarrow> \<forall>k. i \<le> k \<and> k < length (argv app) \<longrightarrow> \<not> IS_SHORT_FLAG (argv app ! k)
   \<Longrightarrow> run_loop c i False app
       = Inr (EXIT_SUCCESS, Silent,
              app\<lparr>args := Some (ps @ tokens_from i (length (argv app)))\<rparr>)"
proof (induction "length (argv app) - i" arbitrary: i ps app)
  case 0
  then have "\<not> i < length (argv app)" by simp
  with "0.prems" show ?case by (simp add: run_loop_done tokens_from_empty)
next
  case (Suc n)
  then have lt: "i < length (argv app)" by simp
  let ?a = "app\<lparr>args := Some (ps @ [(i, 0)])\<rparr>"
  have pl: "\<not> IS_SHORT_FLAG (argv app ! i)" using Suc.prems(2) lt by simp
  have "run_loop c i False app = run_loop c (Suc i) False ?a"
    by (rule run_loop_Continue[OF lt step_plain[OF Suc.prems(1) pl]])
  also have "\<dots> = Inr (EXIT_SUCCESS, Silent,
                ?a\<lparr>args := Some ((ps @ [(i, 0)]) @ tokens_from (Suc i) (length (argv ?a)))\<rparr>)"
    using Suc.hyps(2) Suc.prems(2) by (intro Suc.hyps(1)) simp_all
  finally show ?case using lt by (simp add: tokens_from_step)
qed

lemma cstr_at_tokens:
  "map (cstr_at V) (tokens_from 0 (length V)) = map cstr V"
proof -
  have "map (cstr_at V) (tokens_from 0 (length V)) = map cstr (map (nth V) [0..<length V])"
    by (simp add: tokens_from_def cstr_at_def)
  then show ?thesis by (simp only: map_nth)
qed

section \<open>Two runs side by side\<close>

lemma sim_token:
  assumes "sim E n full a b" "i < n" "i < length (argv a)"
  shows "i < length (argv b) \<and> argv b ! i = argv a ! i"
proof -
  from assms(1) have t: "take n (argv a) = take n (argv b)" by (simp add: sim_def)
  then have "length (take n (argv a)) = length (take n (argv b))" by simp
  with assms(2,3) have l: "i < length (argv b)" by simp
  have "take n (argv a) ! i = take n (argv b) ! i" by (simp add: t)
  with assms(2) l show ?thesis by simp
qed

lemma sim_next:
  assumes "sim E n full a b" "Suc i < n"
  shows "(Suc i < length (argv b)) = (Suc i < length (argv a))"
proof -
  from assms(1) have "length (take n (argv a)) = length (take n (argv b))"
    by (simp add: sim_def)
  with assms(2) show ?thesis by (auto simp: min_def split: if_splits)
qed

lemma search_short_rel:
  "list_all2 (same_option c) xs ys \<Longrightarrow> search_short sh ys m = search_short sh xs m"
proof (induction xs ys arbitrary: m rule: list_all2_induct)
  case Nil
  then show ?case by simp
next
  case (Cons x xs y ys)
  then show ?case by (simp add: same_option_def)
qed

lemma search_long_rel:
  "list_all2 (same_option c) xs ys \<Longrightarrow> search_long lo ys m = search_long lo xs m"
proof (induction xs ys arbitrary: m rule: list_all2_induct)
  case Nil
  then show ?case by simp
next
  case (Cons x xs y ys)
  then show ?case by (simp add: same_option_def split: option.splits)
qed

lemma sim_same_option:
  "entry_rel_ok c E \<Longrightarrow> sim E n full a b \<Longrightarrow> list_all2 (same_option c) (start a) (start b)"
  by (simp add: entry_rel_ok_def sim_def)

lemma sim_search:
  "entry_rel_ok c E \<Longrightarrow> sim E n full a b \<Longrightarrow> cmdapp_search b sh lo = cmdapp_search a sh lo"
  by (auto simp: cmdapp_search_def split: option.splits dest!: sim_same_option
           intro: search_short_rel search_long_rel)

lemma sim_flags:
  "entry_rel_ok c E \<Longrightarrow> sim E n full a b \<Longrightarrow> k < length (start a)
   \<Longrightarrow> (opt_flags b k OR CMDOPT_TAKESARG c \<noteq> 0) = (opt_flags a k OR CMDOPT_TAKESARG c \<noteq> 0)"
  by (auto simp: opt_flags_def same_option_def dest!: sim_same_option list_all2_nthD)

lemma sim_set_value:
  "entry_rel_ok c E \<Longrightarrow> sim E n full a b \<Longrightarrow> k < length (start a)
   \<Longrightarrow> sim E n full (set_value k p a) (set_value k p b)"
  unfolding sim_def set_value_def entry_rel_ok_def upd_value_def
  by simp

lemma sim_set_exists:
  "entry_rel_ok c E \<Longrightarrow> sim E n full a b \<Longrightarrow> k < length (start a)
   \<Longrightarrow> sim E n full (set_exists c k a) (set_exists c k b)"
  unfolding sim_def set_exists_def entry_rel_ok_def upd_exists_def
  by simp

lemma sim_argv_update:
  "sim E n full a b
   \<Longrightarrow> sim E n full (a\<lparr>argv := (argv a)[i := x]\<rparr>) (b\<lparr>argv := (argv b)[i := x]\<rparr>)"
  by (auto simp: sim_def take_update_swap)

lemma map_rel:
  "list_all2 E xs ys \<Longrightarrow> (\<And>e e'. E e e' \<Longrightarrow> f e = f e') \<Longrightarrow> map f ys = map f xs"
  by (induction xs ys rule: list_all2_induct) auto

lemma option_line_rel: "same_option c e e' \<Longrightarrow> option_line c e = option_line c e'"
  by (simp add: option_line_def same_option_def)

lemma sim_print_help:
  assumes "entry_rel_ok c E" "sim E n True a b"
  shows "cmdapp_print_help c b = cmdapp_print_help c a"
proof -
  from assms(2) have eq: "argv b = argv a" "info b = info a"
    by (simp_all add: sim_def)
  from assms have rel: "list_all2 (same_option c) (start a) (start b)"
    by (rule sim_same_option)
  from rel have len: "length (start b) = length (start a)" by (simp add: list_all2_lengthD)
  then have emp: "(start b = []) = (start a = [])" by (metis length_0_conv)
  from rel have "list_all2 (same_option c) (take m (start a)) (take m (start b))" for m
    by (rule list_all2_takeI)
  then have mp: "map (option_line c) (take m (start b)) = map (option_line c) (take m (start a))"
    for m
    by (rule map_rel[where E="same_option c"]) (rule option_line_rel)
  show ?thesis
    unfolding cmdapp_print_help_def eq len emp mp by (rule refl)
qed

lemma sim_print_version:
  "sim E n full a b \<Longrightarrow> cmdapp_print_version b = cmdapp_print_version a"
  by (simp add: cmdapp_print_version_def sim_def)

lemma long_flag_split:
  "long_flag c i app
   = long_flag_rest c i (strchr (argv app ! i) (CHR ''=''))
       (case strchr (argv app ! i) (CHR ''='') of
          None \<Rightarrow> app
        | Some p \<Rightarrow> app\<lparr>argv := (argv app)[i := (argv app ! i)[p := NUL]]\<rparr>)"
  by (simp add: long_flag_def long_flag_rest_def Let_def)

lemma sim_long_flag_rest:
  assumes ok: "entry_rel_ok c E" and s: "sim E n full a b"
    and tok: "argv b ! i = argv a ! i"
  shows "sim_outcome E n full (long_flag_rest c i arg a) (long_flag_rest c i arg b)"
proof (cases "cmdapp_search a NUL (Some (cstr (drop 2 (argv a ! i))))")
  case (Inl f)
  then show ?thesis by (simp add: long_flag_rest_def sim_search[OF ok s] tok)
next
  case (Inr r)
  show ?thesis
  proof (cases r)
    case None
    show ?thesis
    proof (cases full)
      case True
      with s have s': "sim E n True a b" by simp
      show ?thesis
        using s Inr None True
        by (simp add: long_flag_rest_def sim_search[OF ok s] tok sim_print_help[OF ok s']
                      sim_print_version[OF s] split: sum.splits)
    next
      case False
      show ?thesis
        using s Inr None False
        by (simp add: long_flag_rest_def sim_search[OF ok s] tok split: sum.splits)
    qed
  next
    case (Some k)
    with Inr have k: "k < length (start a)" by (auto dest: cmdapp_search_bound)
    note sv = sim_set_value[OF ok s k]
    have se: "sim E n full (set_exists c k (set_value k p a)) (set_exists c k (set_value k p b))"
      for p by (rule sim_set_exists[OF ok sv]) (simp add: k)
    show ?thesis
      using Inr Some s sim_set_exists[OF ok s k] se
      by (simp add: long_flag_rest_def sim_search[OF ok s] tok sim_flags[OF ok s k]
               split: option.splits)
  qed
qed

lemma sim_long_flag:
  assumes ok: "entry_rel_ok c E" and s: "sim E n full a b"
    and i: "i < length (argv a)" "i < n"
  shows "sim_outcome E n full (long_flag c i a) (long_flag c i b)"
proof -
  from sim_token[OF s i(2) i(1)] have lb: "i < length (argv b)"
    and tok: "argv b ! i = argv a ! i" by simp_all
  show ?thesis
  proof (cases "strchr (argv a ! i) (CHR ''='')")
    case None
    then show ?thesis
      using sim_long_flag_rest[OF ok s tok] by (simp add: long_flag_split tok)
  next
    case (Some p)
    let ?x = "(argv a ! i)[p := NUL]"
    have s1: "sim E n full (a\<lparr>argv := (argv a)[i := ?x]\<rparr>) (b\<lparr>argv := (argv b)[i := ?x]\<rparr>)"
      by (rule sim_argv_update[OF s])
    have t1: "argv (b\<lparr>argv := (argv b)[i := ?x]\<rparr>) ! i = argv (a\<lparr>argv := (argv a)[i := ?x]\<rparr>) ! i"
      using i lb by simp
    show ?thesis
      using sim_long_flag_rest[OF ok s1 t1] Some by (simp add: long_flag_split tok)
  qed
qed

lemma sim_shortarg_flag:
  assumes ok: "entry_rel_ok c E" and s: "sim E n full a b"
    and i: "i < length (argv a)" "i < n"
    and nx: "\<forall>m. nxt = Some m \<longrightarrow> m < n \<and> m < length (argv a)"
  shows "sim_outcome E n full (shortarg_flag c i nxt a) (shortarg_flag c i nxt b)"
proof -
  from sim_token[OF s i(2) i(1)] have tok: "argv b ! i = argv a ! i" by simp
  show ?thesis
  proof (cases "cmdapp_search a (byte (argv a ! i) 1) None")
    case (Inl f)
    then show ?thesis by (simp add: shortarg_flag_def sim_search[OF ok s] tok)
  next
    case (Inr r)
    show ?thesis
    proof (cases r)
      case None
      with Inr s show ?thesis by (simp add: shortarg_flag_def sim_search[OF ok s] tok)
    next
      case (Some k)
      with Inr have k: "k < length (start a)" by (auto dest: cmdapp_search_bound)
      have s1: "sim E n full (set_value k p a) (set_value k p b)" for p
        by (rule sim_set_value[OF ok s k])
      have s2: "sim E n full (set_value k q (set_value k p a)) (set_value k q (set_value k p b))"
        for p q
        by (rule sim_set_value[OF ok s1]) (simp add: k)
      have s3: "sim E n full (set_value k r (set_value k q (set_value k p a)))
                  (set_value k r (set_value k q (set_value k p b)))" for p q r
        by (rule sim_set_value[OF ok s2]) (simp add: k)
      have s4: "sim E n full (set_exists c k (set_value k r (set_value k q (set_value k p a))))
                  (set_exists c k (set_value k r (set_value k q (set_value k p b))))" for p q r
        by (rule sim_set_exists[OF ok s3]) (simp add: k)
      have s5: "sim E n full (set_exists c k (set_value k p a)) (set_exists c k (set_value k p b))"
        for p
        by (rule sim_set_exists[OF ok s1]) (simp add: k)
      note rk = Some
      show ?thesis
      proof (cases nxt)
        case None
        then show ?thesis
          using Inr rk s1 s2 s4 s5
          by (simp add: shortarg_flag_def sim_search[OF ok s] tok sim_flags[OF ok s k] Let_def)
      next
        case (Some m)
        with nx sim_token[OF s, of m] have nt: "argv b ! m = argv a ! m" by auto
        show ?thesis
          using Inr rk s1 s2 s4 s5 Some
          by (simp add: shortarg_flag_def sim_search[OF ok s] tok sim_flags[OF ok s k] Let_def nt)
      qed
    qed
  qed
qed

lemma sim_multiflag_loop:
  assumes ok: "entry_rel_ok c E"
    and nx: "\<forall>m. nxt = Some m \<longrightarrow> m < n \<and> m < length (argv a)"
  shows "sim E n full a b
         \<Longrightarrow> sim_outcome E n full (multiflag_loop current cur nxt j m a)
                                 (multiflag_loop current cur nxt j m b)"
  using nx
proof (induction current cur nxt j m a arbitrary: b rule: multiflag_loop.induct)
  case (1 current cur nxt j m a)
  note s = "1.prems"(1)
  note nx = "1.prems"(2)
  note ua = multiflag_loop.simps[of current cur nxt j m a]
  note ub = multiflag_loop.simps[of current cur nxt j m b]
  show ?case
  proof (cases "byte current j \<noteq> NUL")
    case False
    with s show ?thesis by (simp add: ua ub)
  next
    case nz: True
    show ?thesis
    proof (cases "cmdapp_search a (byte current 1) None")
      case (Inl f)
      with nz show ?thesis by (simp add: ua ub sim_search[OF ok s] del: One_nat_def)
    next
      case (Inr r)
      show ?thesis
      proof (cases r)
        case None
        with Inr nz s show ?thesis by (simp add: ua ub sim_search[OF ok s] del: One_nat_def)
      next
        case (Some k)
        with Inr have k: "k < length (start a)" by (auto dest: cmdapp_search_bound)
        have s1: "sim E n full (set_value k p a) (set_value k p b)" for p
          by (rule sim_set_value[OF ok s k])
        have s2: "sim E n full (set_value k q (set_value k p a)) (set_value k q (set_value k p b))"
          for p q
          by (rule sim_set_value[OF ok s1]) (simp add: k)
        note IH1 = "1.IH"(1)[OF nz Inr Some refl _ _ _ s2]
        note IH2 = "1.IH"(2)[OF nz Inr Some refl _ _ s1]
        note rk = Some
        show ?thesis
        proof (cases nxt)
          case None
          then show ?thesis
            using Inr rk nz s1 nx IH1 IH2
            by (subst ua, subst ub) (simp add: sim_search[OF ok s] Let_def del: One_nat_def)
        next
          case (Some m')
          with nx sim_token[OF s, of m'] have nt: "argv b ! m' = argv a ! m'" by auto
          show ?thesis
            using Inr rk nz s1 nx IH1 IH2 Some
            by (subst ua, subst ub) (simp add: sim_search[OF ok s] Let_def nt del: One_nat_def)
        qed
      qed
    qed
  qed
qed

lemma sim_APPEND_ARG:
  "sim E n full a b
   \<Longrightarrow> (case APPEND_ARG a p of
         Inl f \<Rightarrow> APPEND_ARG b p = Inl f
       | Inr a' \<Rightarrow> (\<exists>b'. APPEND_ARG b p = Inr b' \<and> sim E n full a' b'))"
  by (auto simp: APPEND_ARG_def sim_def split: option.splits)

lemma sim_step:
  assumes ok: "entry_rel_ok c E" and s: "sim E n full a b"
    and i: "i < length (argv a)" and n: "Suc (Suc i) \<le> n"
  shows "sim_outcome E n full (cmdapp_step c i oa a) (cmdapp_step c i oa b)"
proof -
  from n have i_n: "i < n" "Suc i < n" by simp_all
  from sim_token[OF s i_n(1) i] have tok: "argv b ! i = argv a ! i" by simp
  have nx: "(Suc i < length (argv b)) = (Suc i < length (argv a))"
    by (rule sim_next[OF s i_n(2)])
  have md: "mode b = mode a" using s by (simp add: sim_def)
  let ?nxt = "if Suc i < length (argv a) then Some (Suc i) else None"
  have nxt: "\<forall>m. ?nxt = Some m \<longrightarrow> m < n \<and> m < length (argv a)"
    using i_n by simp
  have app: "sim_outcome E n full
               (case APPEND_ARG a (i, 0) of Inl f \<Rightarrow> Inl f | Inr a' \<Rightarrow> Inr (Continue i x a'))
               (case APPEND_ARG b (i, 0) of Inl f \<Rightarrow> Inl f | Inr b' \<Rightarrow> Inr (Continue i x b'))"
    for x
    using sim_APPEND_ARG[OF s, of "(i, 0)"] by (auto split: sum.splits)
  show ?thesis
  proof (cases oa)
    case True
    then show ?thesis using app by (simp add: cmdapp_step_def)
  next
    case False
    show ?thesis
      using False s app sim_long_flag[OF ok s i i_n(1)]
        sim_shortarg_flag[OF ok s i i_n(1) nxt] sim_multiflag_loop[OF ok nxt s]
      by (simp add: cmdapp_step_def tok nx md Let_def)
  qed
qed

lemma multiflag_loop_Continue:
  "multiflag_loop current cur nxt j m a = Inr (Continue m' oa a')
   \<Longrightarrow> m \<le> m' \<and> argv a' = argv a"
proof (induction current cur nxt j m a rule: multiflag_loop.induct)
  case (1 current cur nxt j m a)
  show ?case
    using "1.prems" "1.IH"
    by (simp add: multiflag_loop.simps[of current cur nxt j m a] Let_def
             del: One_nat_def split: if_splits sum.splits option.splits) fastforce+
qed

lemma step_Continue:
  "cmdapp_step c i oa a = Inr (Continue i' oa' a')
   \<Longrightarrow> i \<le> i' \<and> length (argv a') = length (argv a)"
  unfolding cmdapp_step_def long_flag_def shortarg_flag_def
  by (auto simp: Let_def APPEND_ARG_def
           split: if_splits sum.splits option.splits dest!: multiflag_loop_Continue)

lemma sim_full_argv: "sim E n True a b \<Longrightarrow> argv b = argv a"
  by (simp add: sim_def)

lemma sim_run_loop:
  "entry_rel_ok c E \<Longrightarrow> sim E n True a b \<Longrightarrow> length (argv a) < n
         \<Longrightarrow> (case run_loop c i oa a of
               Inl f \<Rightarrow> run_loop c i oa b = Inl f
             | Inr (st, out, a') \<Rightarrow>
                 (\<exists>b'. run_loop c i oa b = Inr (st, out, b') \<and> sim E n True a' b'))"
proof (induction c i oa a arbitrary: b rule: run_loop.induct)
  case (1 c i oa a)
  note ok = "1.prems"(1) and s = "1.prems"(2) and ln = "1.prems"(3)
  have ab: "argv b = argv a" by (rule sim_full_argv[OF s])
  show ?case
  proof (cases "i < length (argv a)")
    case False
    with s show ?thesis by (simp add: run_loop_done ab)
  next
    case lt: True
    then have ltb: "i < length (argv b)" by (simp add: ab)
    from lt ln have n: "Suc (Suc i) \<le> n" by simp
    note st = sim_step[OF ok s lt n, of oa]
    show ?thesis
    proof (cases "cmdapp_step c i oa a")
      case (Inl f)
      with st have "cmdapp_step c i oa b = Inl f" by simp
      with Inl show ?thesis by (simp add: run_loop_fault[OF lt] run_loop_fault[OF ltb])
    next
      case (Inr r)
      show ?thesis
      proof (cases r)
        case (Continue i' oa' a1)
        with Inr st obtain b1 where b1: "cmdapp_step c i oa b = Inr (Continue i' oa' b1)"
          and s1: "sim E n True a1 b1" by auto
        from Inr Continue have sa: "cmdapp_step c i oa a = Inr (Continue i' oa' a1)" by simp
        from step_Continue[OF sa] ln have ln1: "length (argv a1) < n" by simp
        from "1.IH"[OF lt Inr Continue ok s1 ln1]
        show ?thesis
          unfolding run_loop_Continue[OF lt sa] run_loop_Continue[OF ltb b1] .
      next
        case (Return st' out a1)
        with Inr st obtain b1 where b1: "cmdapp_step c i oa b = Inr (Return st' out b1)"
          and s1: "sim E n True a1 b1" by auto
        from Inr Return have sa: "cmdapp_step c i oa a = Inr (Return st' out a1)" by simp
        show ?thesis
          using s1 by (simp add: run_loop_Return[OF lt sa] run_loop_Return[OF ltb b1])
      qed
    qed
  qed
qed

section \<open>The loop, pass by pass\<close>

lemma loop_after_run_loop:
  "loop_after c n (i, oa, a) = Some (k, oa', s) \<Longrightarrow> run_loop c i oa a = run_loop c k oa' s"
proof (induction n arbitrary: i oa a)
  case 0
  then show ?case by simp
next
  case (Suc n)
  from Suc.prems have lt: "i < length (argv a)" by (simp split: if_splits)
  from Suc.prems lt obtain i' oa1 a1 where st: "cmdapp_step c i oa a = Inr (Continue i' oa1 a1)"
    and la: "loop_after c n (Suc i', oa1, a1) = Some (k, oa', s)"
    by (auto split: sum.splits outcome.splits)
  from Suc.IH[OF la] show ?case by (simp add: run_loop_Continue[OF lt st])
qed

lemma loop_after_mono:
  "loop_after c n (i, oa, a) = Some (k, oa', s)
   \<Longrightarrow> i + n \<le> k \<and> length (argv s) = length (argv a)"
proof (induction n arbitrary: i oa a)
  case 0
  then show ?case by simp
next
  case (Suc n)
  from Suc.prems have lt: "i < length (argv a)" by (simp split: if_splits)
  from Suc.prems lt obtain i' oa1 a1 where st: "cmdapp_step c i oa a = Inr (Continue i' oa1 a1)"
    and la: "loop_after c n (Suc i', oa1, a1) = Some (k, oa', s)"
    by (auto split: sum.splits outcome.splits)
  from Suc.IH[OF la] step_Continue[OF st] show ?case by simp
qed

lemma run_loop_failure_at:
  "run_loop c i oa a = Inr (EXIT_FAILURE, out, a')
   \<Longrightarrow> \<exists>n k oa' s. loop_after c n (i, oa, a) = Some (k, oa', s) \<and> k < length (argv s)
         \<and> cmdapp_step c k oa' s = Inr (Return EXIT_FAILURE out a')"
proof (induction c i oa a rule: run_loop.induct)
  case (1 c i oa a)
  note run = "1.prems"
  show ?case
  proof (cases "i < length (argv a)")
    case False
    with run show ?thesis by (simp add: run_loop_done)
  next
    case lt: True
    show ?thesis
    proof (cases "cmdapp_step c i oa a")
      case (Inl f)
      with run show ?thesis by (simp add: run_loop_fault[OF lt])
    next
      case (Inr r)
      show ?thesis
      proof (cases r)
        case (Continue i' oa' a1)
        with Inr have sa: "cmdapp_step c i oa a = Inr (Continue i' oa' a1)" by simp
        from run have run1: "run_loop c (Suc i') oa' a1 = Inr (EXIT_FAILURE, out, a')"
          by (simp add: run_loop_Continue[OF lt sa])
        from "1.IH"[OF lt Inr Continue run1] obtain n k oa2 s where
          la: "loop_after c n (Suc i', oa', a1) = Some (k, oa2, s)" and k: "k < length (argv s)"
          and st: "cmdapp_step c k oa2 s = Inr (Return EXIT_FAILURE out a')"
          by blast
        from la lt sa have "loop_after c (Suc n) (i, oa, a) = Some (k, oa2, s)" by simp
        with k st show ?thesis by blast
      next
        case (Return st' out' a1)
        with Inr have sa: "cmdapp_step c i oa a = Inr (Return st' out' a1)" by simp
        with run have eqs: "st' = EXIT_FAILURE" "out' = out" "a1 = a'"
          by (simp_all add: run_loop_Return[OF lt sa])
        have "loop_after c 0 (i, oa, a) = Some (i, oa, a)" by simp
        with lt sa eqs show ?thesis by blast
      qed
    qed
  qed
qed

lemma sim_loop_after:
  "entry_rel_ok c E \<Longrightarrow> sim E m full a b \<Longrightarrow> loop_after c n (i, oa, a) = Some (k, oa', s)
   \<Longrightarrow> Suc k \<le> m
   \<Longrightarrow> \<exists>s'. loop_after c n (i, oa, b) = Some (k, oa', s') \<and> sim E m full s s'"
proof (induction n arbitrary: i oa a b)
  case 0
  then show ?case by simp
next
  case (Suc n)
  note ok = Suc.prems(1) and s = Suc.prems(2) and km = Suc.prems(4)
  from Suc.prems(3) have lt: "i < length (argv a)" by (simp split: if_splits)
  from Suc.prems(3) lt obtain i' oa1 a1 where st: "cmdapp_step c i oa a = Inr (Continue i' oa1 a1)"
    and la: "loop_after c n (Suc i', oa1, a1) = Some (k, oa', s)"
    by (auto split: sum.splits outcome.splits)
  from loop_after_mono[OF la] step_Continue[OF st] have ik: "i < k" by simp
  with km have n2: "Suc (Suc i) \<le> m" by simp
  from sim_step[OF ok s lt n2, of oa] st
  obtain b1 where b1: "cmdapp_step c i oa b = Inr (Continue i' oa1 b1)"
    and s1: "sim E m full a1 b1" by auto
  from sim_token[OF s _ lt] n2 have ltb: "i < length (argv b)" by simp
  from Suc.IH[OF ok s1 la km] obtain s' where
    "loop_after c n (Suc i', oa1, b1) = Some (k, oa', s')" "sim E m full s s'" by blast
  with ltb b1 show ?case by simp
qed

section \<open>What a run keeps\<close>

lemma kept_refl: "kept e e"
  by (simp add: kept_def)

lemma kept_trans: "kept e e' \<Longrightarrow> kept e' e'' \<Longrightarrow> kept e e''"
  by (auto simp: kept_def) (metis or.assoc)

lemma kept_app_refl: "kept_app a a"
  by (simp add: kept_app_def list_all2_refl kept_refl)

lemma kept_app_trans: "kept_app a a' \<Longrightarrow> kept_app a' a'' \<Longrightarrow> kept_app a a''"
  unfolding kept_app_def
  by (auto intro: list_all2_trans[where ?P1.0=kept and ?P2.0=kept, rotated 1] kept_trans)

lemma kept_app_set_value: "kept_app a a' \<Longrightarrow> kept_app a (set_value k p a')"
proof -
  assume h: "kept_app a a'"
  have "kept_app a' (set_value k p a')"
    unfolding kept_app_def set_value_def
    by (cases "k < length (start a')")
       (auto simp: list_all2_conv_all_nth nth_list_update kept_def)
  with h show ?thesis by (rule kept_app_trans)
qed

lemma kept_app_set_exists: "kept_app a a' \<Longrightarrow> kept_app a (set_exists c k a')"
proof -
  assume h: "kept_app a a'"
  have "kept_app a' (set_exists c k a')"
    unfolding kept_app_def set_exists_def
    by (cases "k < length (start a')")
       (auto simp: list_all2_conv_all_nth nth_list_update kept_def or.assoc[symmetric])
  with h show ?thesis by (rule kept_app_trans)
qed

lemma kept_app_argv: "kept_app a a' \<Longrightarrow> kept_app a (a'\<lparr>argv := av\<rparr>)"
  by (simp add: kept_app_def)

lemma kept_app_args: "kept_app a a' \<Longrightarrow> kept_app a (a'\<lparr>args := Some ps\<rparr>)"
  by (simp add: kept_app_def)

lemmas kept_intros =
  kept_app_refl kept_app_set_value kept_app_set_exists kept_app_argv kept_app_args

lemma long_flag_kept:
  "long_flag c i a = Inr r \<Longrightarrow> kept_app a (app_of r)"
  by (auto simp: long_flag_def Let_def intro!: kept_intros
           split: sum.splits option.splits if_splits)

lemma shortarg_flag_kept:
  "shortarg_flag c i nxt a = Inr r \<Longrightarrow> kept_app a (app_of r)"
  by (auto simp: shortarg_flag_def Let_def intro!: kept_intros
           split: sum.splits option.splits if_splits)

lemma multiflag_loop_kept:
  "multiflag_loop current cur nxt j m a = Inr r \<Longrightarrow> kept_app a0 a \<Longrightarrow> kept_app a0 (app_of r)"
proof (induction current cur nxt j m a rule: multiflag_loop.induct)
  case (1 current cur nxt j m a)
  show ?case
    using "1.prems" "1.IH"
    by (simp add: multiflag_loop.simps[of current cur nxt j m a] Let_def
             del: One_nat_def split: if_splits sum.splits option.splits)
       (auto intro!: kept_intros)
qed

lemma step_kept:
  "cmdapp_step c i oa a = Inr r \<Longrightarrow> kept_app a (app_of r)"
  unfolding cmdapp_step_def Let_def
  by (auto simp: APPEND_ARG_def intro!: kept_intros
           split: if_splits sum.splits option.splits
           dest: long_flag_kept shortarg_flag_kept multiflag_loop_kept[OF _ kept_app_refl])

lemma run_loop_kept:
  "run_loop c i oa a = Inr (st, out, a') \<Longrightarrow> kept_app a a'"
proof (induction c i oa a rule: run_loop.induct)
  case (1 c i oa a)
  show ?case
  proof (cases "i < length (argv a)")
    case False
    with "1.prems" show ?thesis by (simp add: run_loop_done kept_app_refl)
  next
    case lt: True
    show ?thesis
    proof (cases "cmdapp_step c i oa a")
      case (Inl f)
      with "1.prems" show ?thesis by (simp add: run_loop_fault[OF lt])
    next
      case (Inr r)
      note k = step_kept[OF Inr]
      show ?thesis
      proof (cases r)
        case (Continue i' oa' a1)
        with Inr have sa: "cmdapp_step c i oa a = Inr (Continue i' oa' a1)" by simp
        from "1.prems" have "run_loop c (Suc i') oa' a1 = Inr (st, out, a')"
          by (simp add: run_loop_Continue[OF lt sa])
        from "1.IH"[OF lt Inr Continue this] k Continue show ?thesis
          by (auto intro: kept_app_trans)
      next
        case (Return st' out' a1)
        with Inr have sa: "cmdapp_step c i oa a = Inr (Return st' out' a1)" by simp
        with "1.prems" k Return show ?thesis by (simp add: run_loop_Return[OF lt sa])
      qed
    qed
  qed
qed

lemma long_flag_diag:
  "long_flag c i a = Inr (Return EXIT_FAILURE out a') \<Longrightarrow> \<exists>d. out = Stderr d"
  by (auto simp: long_flag_def Let_def split: sum.splits option.splits if_splits)

lemma shortarg_flag_diag:
  "shortarg_flag c i nxt a = Inr (Return EXIT_FAILURE out a') \<Longrightarrow> \<exists>d. out = Stderr d"
  by (auto simp: shortarg_flag_def Let_def split: sum.splits option.splits if_splits)

lemma multiflag_loop_diag:
  "multiflag_loop current cur nxt j m a = Inr (Return EXIT_FAILURE out a')
   \<Longrightarrow> \<exists>d. out = Stderr d"
proof (induction current cur nxt j m a rule: multiflag_loop.induct)
  case (1 current cur nxt j m a)
  show ?case
    using "1.prems" "1.IH"
    by (simp add: multiflag_loop.simps[of current cur nxt j m a] Let_def
             del: One_nat_def split: if_splits sum.splits option.splits) auto
qed

lemma step_diag:
  "cmdapp_step c i oa a = Inr (Return EXIT_FAILURE out a') \<Longrightarrow> \<exists>d. out = Stderr d"
  unfolding cmdapp_step_def Let_def
  by (auto simp: APPEND_ARG_def split: if_splits sum.splits option.splits
           dest: long_flag_diag shortarg_flag_diag multiflag_loop_diag)

lemma run_loop_diag:
  "run_loop c i oa a = Inr (EXIT_FAILURE, out, a') \<Longrightarrow> \<exists>d. out = Stderr d"
proof (induction c i oa a rule: run_loop.induct)
  case (1 c i oa a)
  show ?case
  proof (cases "i < length (argv a)")
    case False
    with "1.prems" show ?thesis by (simp add: run_loop_done)
  next
    case lt: True
    show ?thesis
    proof (cases "cmdapp_step c i oa a")
      case (Inl f)
      with "1.prems" show ?thesis by (simp add: run_loop_fault[OF lt])
    next
      case (Inr r)
      show ?thesis
      proof (cases r)
        case (Continue i' oa' a1)
        with Inr have sa: "cmdapp_step c i oa a = Inr (Continue i' oa' a1)" by simp
        from "1.prems" have "run_loop c (Suc i') oa' a1 = Inr (EXIT_FAILURE, out, a')"
          by (simp add: run_loop_Continue[OF lt sa])
        from "1.IH"[OF lt Inr Continue this] show ?thesis .
      next
        case (Return st' out' a1)
        with Inr have sa: "cmdapp_step c i oa a = Inr (Return st' out' a1)" by simp
        with "1.prems" have "cmdapp_step c i oa a = Inr (Return EXIT_FAILURE out a')"
          by (simp add: run_loop_Return[OF lt sa])
        then show ?thesis by (rule step_diag)
      qed
    qed
  qed
qed

lemma same_option_refl: "same_option c e e"
  by (simp add: same_option_def)

lemma entry_rel_ok_eq: "entry_rel_ok c (=)"
  by (simp add: entry_rel_ok_def list_all2_refl same_option_refl)

lemma same_option_upd_value:
  "list_all2 (same_option c) es es' \<Longrightarrow> k < length es
   \<Longrightarrow> list_all2 (same_option c) (upd_value k p es) (upd_value k p es')"
  unfolding upd_value_def
  by (rule list_all2_update_cong) (auto simp: same_option_def dest: list_all2_nthD)

lemma same_option_upd_exists:
  "list_all2 (same_option c) es es' \<Longrightarrow> k < length es
   \<Longrightarrow> list_all2 (same_option c) (upd_exists c k es) (upd_exists c k es')"
  unfolding upd_exists_def
  by (rule list_all2_update_cong)
     (auto simp: same_option_def or_eq_0_iff dest: list_all2_nthD)

lemma kept_same_option: "CMDOPT_TAKESARG c \<noteq> 0 \<Longrightarrow> kept e e' \<Longrightarrow> same_option c e e'"
  by (simp add: kept_def same_option_def or_eq_0_iff)

lemma cmdapp_run_eq: "cmdapp_run c app = run_loop c 0 False (app\<lparr>args := Some []\<rparr>)"
  by (simp add: cmdapp_run_def split: option.splits)

lemma seen_kept:
  assumes "(f::8 word) OR f' = f'" "f AND e \<noteq> 0"
  shows "f' AND e \<noteq> 0"
proof -
  have "f' AND e = (f AND e) OR (f' AND e)"
    by (subst assms(1)[symmetric]) (simp add: bit.conj_disj_distrib2)
  with assms(2) show ?thesis by (metis or_eq_0_iff)
qed

section \<open>The multi-flag loop\<close>

lemma search_short_kept:
  "list_all2 kept xs ys \<Longrightarrow> search_short sh ys n = search_short sh xs n"
  by (induction xs ys arbitrary: n rule: list_all2_induct) (simp_all add: kept_def)

lemma cmdapp_search_short_set_value [simp]:
  "cmdapp_search (set_value k p a) sh None = cmdapp_search a sh None"
  using kept_app_set_value[OF kept_app_refl, of a k p]
  by (simp add: cmdapp_search_def kept_app_def search_short_kept)

lemma multiflag_loop_shape:
  "multiflag_loop current cur nxt j m a = Inr r
   \<Longrightarrow> cmdapp_search a (byte current 1) None = Inr (Some k0)
   \<Longrightarrow> (\<forall>k. opt_flags (app_of r) k = opt_flags a k)
       \<and> (\<forall>st out a'. r = Return st out a'
             \<longrightarrow> st = EXIT_FAILURE
               \<and> out = Stderr (Expects_an_argument [CHR ''-'', byte current 1]))"
proof (induction current cur nxt j m a rule: multiflag_loop.induct)
  case (1 current cur nxt j m a)
  show ?case
    using "1.prems" "1.IH"
    by (simp add: multiflag_loop.simps[of current cur nxt j m a] Let_def
             del: One_nat_def split: if_splits) auto
qed

section \<open>What a returning pass leaves\<close>

lemma opt_flags_args [simp]: "opt_flags (app\<lparr>args := ps\<rparr>) k = opt_flags app k"
  by (simp add: opt_flags_def)

lemma long_flag_Return_frame:
  "long_flag c i a = Inr (Return st out a') \<Longrightarrow> args a' = args a \<and> start a' = start a"
  by (auto simp: long_flag_def Let_def split: sum.splits option.splits if_splits)

lemma shortarg_flag_Return_frame:
  "shortarg_flag c i nxt a = Inr (Return st out a')
   \<Longrightarrow> args a' = args a \<and> (\<forall>j. opt_flags a' j = opt_flags a j)
       \<and> (\<forall>j. opt_value a' j = opt_value a j \<or> opt_value a' j = Some (i, 2)
               \<or> opt_value a' j = None)"
  by (auto simp: shortarg_flag_def Let_def opt_value_set_value_gen
           split: sum.splits option.splits if_splits)

lemma multiflag_loop_Return_found:
  "multiflag_loop current cur nxt j m a = Inr (Return st out a')
   \<Longrightarrow> cmdapp_search a (byte current 1) None = Inr (Some k0)
   \<Longrightarrow> args a' = args a \<and> (\<forall>k. opt_flags a' k = opt_flags a k)
       \<and> (\<forall>k. opt_value a' k = (if k = k0 then Some (cur, 2) else opt_value a k))"
proof (induction current cur nxt j m a rule: multiflag_loop.induct)
  case (1 current cur nxt j m a)
  note u = multiflag_loop.simps[of current cur nxt j m a]
  note f = "1.prems"(2)
  from f have k0: "k0 < length (start a)" by (rule cmdapp_search_bound)
  show ?case
  proof (cases "byte current j \<noteq> NUL")
    case False
    with "1.prems" show ?thesis by (simp add: u)
  next
    case nz: True
    note IH1 = "1.IH"(1)[OF nz f refl refl]
    note IH2 = "1.IH"(2)[OF nz f refl refl]
    show ?thesis
      using "1.prems" nz IH1 IH2 k0
      by (simp add: u Let_def del: One_nat_def split: if_splits)
         (auto simp: opt_value_set_value_gen split: if_splits)
  qed
qed

lemma multiflag_loop_Return_frame:
  "multiflag_loop current cur nxt j m a = Inr (Return st out a')
   \<Longrightarrow> args a' = args a \<and> (\<forall>k. opt_flags a' k = opt_flags a k)
       \<and> (\<forall>k. opt_value a' k = opt_value a k \<or> opt_value a' k = Some (cur, 2))"
proof (cases "cmdapp_search a (byte current 1) None")
  case (Inl f)
  assume "multiflag_loop current cur nxt j m a = Inr (Return st out a')"
  with Inl show ?thesis
    by (simp add: multiflag_loop.simps[of current cur nxt j m a] del: One_nat_def split: if_splits)
next
  case (Inr r)
  assume m: "multiflag_loop current cur nxt j m a = Inr (Return st out a')"
  show ?thesis
  proof (cases r)
    case None
    with Inr m show ?thesis
      by (simp add: multiflag_loop.simps[of current cur nxt j m a] del: One_nat_def
               split: if_splits)
  next
    case (Some k0)
    with Inr multiflag_loop_Return_found[OF m] show ?thesis by simp
  qed
qed

lemma step_Return_frame:
  assumes "cmdapp_step c i oa a = Inr (Return st out a')"
  shows "args a' = args a \<and> (\<forall>k. opt_flags a' k = opt_flags a k)
       \<and> (\<forall>k. opt_value a' k = opt_value a k \<or> opt_value a' k = Some (i, 2)
               \<or> opt_value a' k = None)"
proof -
  from assms consider
      (long) "long_flag c i a = Inr (Return st out a')"
    | (short) nxt where "shortarg_flag c i nxt a = Inr (Return st out a')"
    | (multi) nxt where "multiflag_loop (argv a ! i) i nxt 1 i a = Inr (Return st out a')"
    unfolding cmdapp_step_def Let_def
    by (auto simp: APPEND_ARG_def split: if_splits sum.splits option.splits)
  then show ?thesis
  proof cases
    case long
    from long_flag_Return_frame[OF long] show ?thesis
      by (simp add: opt_flags_def opt_value_def)
  next
    case short
    from shortarg_flag_Return_frame[OF short] show ?thesis by simp
  next
    case multi
    from multiflag_loop_Return_frame[OF multi] show ?thesis by blast
  qed
qed

section \<open>What a second scan starts from\<close>

lemma entry_rel_ok_rescan: "entry_rel_ok c (rescan_rel c R S)"
  unfolding entry_rel_ok_def
proof (intro allI impI conjI)
  fix es es' assume r: "rescan_rel c R S es es'"
  then show "list_all2 (same_option c) es es'" by (simp add: rescan_rel_def)
  from r have so: "list_all2 (same_option c) es es'"
    by (simp add: rescan_rel_def)
  from so have len: "length es' = length es"
    by (simp add: list_all2_lengthD)
  {
    fix k p assume k: "k < length es"
    show "rescan_rel c R S (upd_value k p es) (upd_value k p es')"
      using r k len same_option_upd_value[OF so k, of p]
      by (auto simp: rescan_rel_def upd_value_def nth_list_update)
  }
  {
    fix k assume k: "k < length es"
    show "rescan_rel c R S (upd_exists c k es) (upd_exists c k es')"
      using r k len same_option_upd_exists[OF so k]
      by (auto simp: rescan_rel_def upd_exists_def nth_list_update or.assoc or.commute
                     or.left_commute)
  }
qed

lemma long_flag_value_None:
  "long_flag c i a = Inr r \<Longrightarrow> opt_value (app_of r) k = None \<Longrightarrow> opt_value a k = None"
  by (auto simp: long_flag_def Let_def opt_value_set_value_gen
           split: sum.splits option.splits if_splits)

lemma shortarg_flag_value_None:
  "CMDOPT_TAKESARG c \<noteq> 0 \<Longrightarrow> shortarg_flag c i nxt a = Inr r
   \<Longrightarrow> opt_value (app_of r) k = None \<Longrightarrow> opt_value a k = None"
  by (auto simp: shortarg_flag_def Let_def opt_value_set_value_gen or_eq_0_iff
           split: sum.splits option.splits if_splits)

lemma multiflag_loop_value_None:
  "multiflag_loop current cur nxt j m a = Inr r
   \<Longrightarrow> opt_value (app_of r) k = None \<Longrightarrow> opt_value a k = None"
proof (induction current cur nxt j m a rule: multiflag_loop.induct)
  case (1 current cur nxt j m a)
  show ?case
    using "1.prems" "1.IH"
    by (simp add: multiflag_loop.simps[of current cur nxt j m a] Let_def
             del: One_nat_def split: if_splits sum.splits option.splits)
       (fastforce simp: opt_value_set_value_gen split: if_splits)+
qed

lemma step_value_None:
  assumes "CMDOPT_TAKESARG c \<noteq> 0" "cmdapp_step c i oa a = Inr r"
    "opt_value (app_of r) k = None"
  shows "opt_value a k = None"
  using assms
  unfolding cmdapp_step_def Let_def
  by (auto simp: APPEND_ARG_def split: if_splits sum.splits option.splits
           dest: long_flag_value_None shortarg_flag_value_None multiflag_loop_value_None)

lemma run_loop_value_None:
  "CMDOPT_TAKESARG c \<noteq> 0 \<Longrightarrow> run_loop c i oa a = Inr (st, out, a')
   \<Longrightarrow> opt_value a' k = None \<Longrightarrow> opt_value a k = None"
proof (induction c i oa a rule: run_loop.induct)
  case (1 c i oa a)
  note T = "1.prems"(1) and run = "1.prems"(2) and v = "1.prems"(3)
  show ?case
  proof (cases "i < length (argv a)")
    case False
    with run v show ?thesis by (simp add: run_loop_done)
  next
    case lt: True
    show ?thesis
    proof (cases "cmdapp_step c i oa a")
      case (Inl f)
      with run show ?thesis by (simp add: run_loop_fault[OF lt])
    next
      case (Inr r)
      show ?thesis
      proof (cases r)
        case (Continue i' oa' a1)
        with Inr have sa: "cmdapp_step c i oa a = Inr (Continue i' oa' a1)" by simp
        from run have "run_loop c (Suc i') oa' a1 = Inr (st, out, a')"
          by (simp add: run_loop_Continue[OF lt sa])
        from "1.IH"[OF lt Inr Continue T this v] have "opt_value a1 k = None" .
        with step_value_None[OF T sa] show ?thesis by simp
      next
        case (Return st' out' a1)
        with Inr have sa: "cmdapp_step c i oa a = Inr (Return st' out' a1)" by simp
        with run have "a1 = a'" by (simp add: run_loop_Return[OF lt sa])
        with step_value_None[OF T sa] v show ?thesis by simp
      qed
    qed
  qed
qed

section \<open>Plain tokens before a flag, and the long-name lookup\<close>

lemma run_loop_plain_prefix:
  "args app = Some ps \<Longrightarrow> n \<le> length (argv app) \<Longrightarrow> i \<le> n
   \<Longrightarrow> \<forall>k. i \<le> k \<and> k < n \<longrightarrow> \<not> IS_SHORT_FLAG (argv app ! k)
   \<Longrightarrow> run_loop c i False app
       = run_loop c n False (app\<lparr>args := Some (ps @ tokens_from i n)\<rparr>)"
proof (induction "n - i" arbitrary: i ps app)
  case 0
  then have "i = n" by simp
  moreover from "0.prems"(1) have "app\<lparr>args := Some ps\<rparr> = app" by (cases app) simp
  ultimately show ?case by (simp add: tokens_from_empty)
next
  case (Suc m)
  then have lt: "i < n" by simp
  with Suc.prems have lta: "i < length (argv app)" by simp
  let ?a = "app\<lparr>args := Some (ps @ [(i, 0)])\<rparr>"
  have pl: "\<not> IS_SHORT_FLAG (argv app ! i)" using Suc.prems(4) lt by simp
  have "run_loop c i False app = run_loop c (Suc i) False ?a"
    by (rule run_loop_Continue[OF lta step_plain[OF Suc.prems(1) pl]])
  also have "\<dots> = run_loop c n False
                (?a\<lparr>args := Some ((ps @ [(i, 0)]) @ tokens_from (Suc i) n)\<rparr>)"
    using Suc.hyps(2) Suc.prems lt by (intro Suc.hyps(1)) simp_all
  finally show ?case using lt by (simp add: tokens_from_step)
qed

lemma cmdapp_run_prefix:
  assumes "\<forall>t\<in>set pre. \<not> IS_SHORT_FLAG t"
  shows "cmdapp_run c (app\<lparr>argv := pre @ rest\<rparr>)
         = run_loop c (length pre) False
             (app\<lparr>argv := pre @ rest, args := Some (tokens_from 0 (length pre))\<rparr>)"
proof -
  let ?a0 = "app\<lparr>argv := pre @ rest, args := Some []\<rparr>"
  have pl: "\<forall>k. 0 \<le> k \<and> k < length pre \<longrightarrow> \<not> IS_SHORT_FLAG (argv ?a0 ! k)"
    using assms by (simp add: nth_append)
  have "run_loop c 0 False ?a0
        = run_loop c (length pre) False (?a0\<lparr>args := Some ([] @ tokens_from 0 (length pre))\<rparr>)"
    by (rule run_loop_plain_prefix[OF _ _ _ pl]) simp_all
  then show ?thesis by (simp add: cmdapp_run_eq)
qed

lemma search_long_first:
  "k < length es \<Longrightarrow> longo (result (es ! k)) = Some lo
   \<Longrightarrow> \<forall>j<k. longo (result (es ! j)) \<noteq> Some lo
   \<Longrightarrow> search_long lo es n
       = (if \<forall>j<k. longo (result (es ! j)) \<noteq> None then Inr (Some (n + k)) else Inl NullDeref)"
proof (induction es arbitrary: k n)
  case Nil
  then show ?case by simp
next
  case (Cons e es)
  show ?case
  proof (cases k)
    case 0
    with Cons.prems show ?thesis by simp
  next
    case (Suc k')
    from Cons.prems Suc have e: "longo (result e) \<noteq> Some lo" by auto
    from Cons.prems Suc have p: "k' < length es" "longo (result (es ! k')) = Some lo"
      "\<forall>j<k'. longo (result (es ! j)) \<noteq> Some lo" by auto
    have all: "(\<forall>j<Suc k'. longo (result ((e # es) ! j)) \<noteq> None)
               = (longo (result e) \<noteq> None \<and> (\<forall>j<k'. longo (result (es ! j)) \<noteq> None))"
      by (simp add: All_less_Suc2)
    show ?thesis
      using e Cons.IH[OF p, of "Suc n"] unfolding Suc all
      by (auto split: option.splits)
  qed
qed

lemma search_long_null_name:
  "k < length es \<Longrightarrow> longo (result (es ! k)) = None
   \<Longrightarrow> \<forall>j<k. \<exists>l. longo (result (es ! j)) = Some l \<and> l \<noteq> lo
   \<Longrightarrow> search_long lo es n = Inl NullDeref"
proof (induction es arbitrary: k n)
  case Nil
  then show ?case by simp
next
  case (Cons e es)
  show ?case
  proof (cases k)
    case 0
    with Cons.prems show ?thesis by simp
  next
    case (Suc k')
    from Cons.prems Suc obtain l where e: "longo (result e) = Some l" "l \<noteq> lo" by fastforce
    from Cons.prems Suc have p: "k' < length es" "longo (result (es ! k')) = None"
      "\<forall>j<k'. \<exists>l. longo (result (es ! j)) = Some l \<and> l \<noteq> lo" by auto
    show ?thesis
      using e Cons.IH[OF p, of "Suc n"] by simp
  qed
qed

lemma long_flag_fault:
  "cmdapp_search app NUL (Some (cstr (drop 2
      (case strchr (argv app ! i) (CHR ''='') of
         None \<Rightarrow> argv app ! i | Some p \<Rightarrow> (argv app ! i)[p := NUL])))) = Inl f
   \<Longrightarrow> i < length (argv app) \<Longrightarrow> long_flag c i app = Inl f"
  by (auto simp: long_flag_def Let_def split: option.splits)

lemma cmdapp_print_help_args [simp]:
  "cmdapp_print_help c (app\<lparr>args := ps\<rparr>) = cmdapp_print_help c app"
  by (simp add: cmdapp_print_help_def Let_def split: list.splits)

lemma cmdapp_print_version_simps [simp]:
  "cmdapp_print_version (app\<lparr>args := ps\<rparr>) = cmdapp_print_version app"
  "cmdapp_print_version (app\<lparr>argv := av\<rparr>) = cmdapp_print_version app"
  by (simp_all add: cmdapp_print_version_def)

lemma print_help_returns:
  "argv app \<noteq> [] \<Longrightarrow> start app = [] \<or> length (argv app) \<le> length (start app)
   \<Longrightarrow> \<exists>rendered. cmdapp_print_help c app = Inr rendered"
  by (auto simp: cmdapp_print_help_def Let_def split: list.splits)

lemma print_help_reads_past:
  "start app \<noteq> [] \<Longrightarrow> length (start app) < length (argv app)
   \<Longrightarrow> cmdapp_print_help c app = Inl Uninitialised"
  by (auto simp: cmdapp_print_help_def Let_def split: list.splits)

lemma cmdapp_run_long_token:
  assumes pre: "\<forall>t\<in>set pre. \<not> IS_SHORT_FLAG t"
    and long: "IS_LONG_FLAG tok" "\<not> IS_END_OF_FLAGS tok"
  shows "cmdapp_run c (app\<lparr>argv := pre @ [tok] @ post\<rparr>)
         = (case long_flag c (length pre)
                   (app\<lparr>argv := pre @ [tok] @ post,
                        args := Some (tokens_from 0 (length pre))\<rparr>) of
              Inl f \<Rightarrow> Inl f
            | Inr (Return st out a') \<Rightarrow> Inr (st, out, a')
            | Inr (Continue i' oa' a') \<Rightarrow> run_loop c (Suc i') oa' a')"
proof -
  let ?s = "app\<lparr>argv := pre @ [tok] @ post, args := Some (tokens_from 0 (length pre))\<rparr>"
  have i: "length pre < length (argv ?s)" by simp
  have tok: "argv ?s ! length pre = tok" by (simp add: nth_append)
  have st: "cmdapp_step c (length pre) False ?s = long_flag c (length pre) ?s"
    by (rule step_long) (simp_all add: tok long)
  have "cmdapp_run c (app\<lparr>argv := pre @ [tok] @ post\<rparr>) = run_loop c (length pre) False ?s"
    by (rule cmdapp_run_prefix[OF pre])
  also have "\<dots> = (case long_flag c (length pre) ?s of
              Inl f \<Rightarrow> Inl f
            | Inr (Return st out a') \<Rightarrow> Inr (st, out, a')
            | Inr (Continue i' oa' a') \<Rightarrow> run_loop c (Suc i') oa' a')"
    by (subst run_loop.simps) (simp only: i if_True st)
  finally show ?thesis .
qed

section \<open>What a scan does to the vector\<close>

lemma end_of_flags_no_eq:
  assumes "IS_END_OF_FLAGS tok"
  shows "strchr tok (CHR ''='') = None"
proof -
  from assms obtain rest where t: "tok = CHR ''-'' # CHR ''-'' # rest"
    and r: "rest = [] \<or> hd rest = NUL"
    by (cases tok; cases "tl tok"; cases "tl (tl tok)")
       (auto simp: IS_END_OF_FLAGS_def byte_def NUL_def split: if_splits)
  from r show ?thesis unfolding t by (cases rest) (auto simp: NUL_def)
qed

lemma shortarg_flag_argv:
  "shortarg_flag c i nxt a = Inr r \<Longrightarrow> argv (app_of r) = argv a"
  by (auto simp: shortarg_flag_def Let_def split: sum.splits option.splits if_splits)

lemma multiflag_loop_argv:
  "multiflag_loop current cur nxt j m a = Inr r \<Longrightarrow> argv (app_of r) = argv a"
proof (induction current cur nxt j m a rule: multiflag_loop.induct)
  case (1 current cur nxt j m a)
  show ?case
    using "1.prems" "1.IH"
    by (simp add: multiflag_loop.simps[of current cur nxt j m a] Let_def
             del: One_nat_def split: if_splits sum.splits option.splits) fastforce+
qed

lemma step_argv_frame:
  assumes "cmdapp_step c i oa a = Inr r"
  shows "argv (app_of r) = argv a
         \<or> (\<not> oa \<and> IS_LONG_FLAG (argv a ! i)
            \<and> (\<exists>q. strchr (argv a ! i) (CHR ''='') = Some q
                    \<and> argv (app_of r) = (argv a)[i := (argv a ! i)[q := NUL]]))"
proof -
  from assms consider
      (same) "argv (app_of r) = argv a"
    | (long) "\<not> oa" "IS_LONG_FLAG (argv a ! i)" "long_flag c i a = Inr r"
    unfolding cmdapp_step_def Let_def
    by (auto simp: APPEND_ARG_def split: if_splits sum.splits option.splits
             dest: shortarg_flag_argv multiflag_loop_argv)
  then show ?thesis
  proof cases
    case same
    then show ?thesis by simp
  next
    case long
    from long_flag_argv[OF long(3)] long(1,2) show ?thesis
      by (cases "strchr (argv a ! i) (CHR ''='')") simp_all
  qed
qed

lemma step_argv_other:
  assumes "cmdapp_step c i oa a = Inr r" "m \<noteq> i"
  shows "argv (app_of r) ! m = argv a ! m" "length (argv (app_of r)) = length (argv a)"
  using step_argv_frame[OF assms(1)] assms(2) by auto

lemma loop_after_argv_frame:
  "loop_after c n (i, oa, a) = Some (k, oa', s) \<Longrightarrow> k \<le> m \<Longrightarrow> argv s ! m = argv a ! m"
proof (induction n arbitrary: i oa a)
  case 0
  then show ?case by simp
next
  case (Suc n)
  from Suc.prems(1) have lt: "i < length (argv a)" by (simp split: if_splits)
  from Suc.prems(1) lt obtain i' oa1 a1 where st: "cmdapp_step c i oa a = Inr (Continue i' oa1 a1)"
    and la: "loop_after c n (Suc i', oa1, a1) = Some (k, oa', s)"
    by (auto split: sum.splits outcome.splits)
  from loop_after_mono[OF la] step_Continue[OF st] Suc.prems(2) have "m \<noteq> i" by simp
  from step_argv_other(1)[OF st this] Suc.IH[OF la Suc.prems(2)] show ?case by simp
qed

lemma run_loop_argv_frame:
  "run_loop c j oa s = Inr (st, out, a')
   \<Longrightarrow> length (argv a') = length (argv s)
       \<and> (\<forall>m. argv a' ! m = argv s ! m
              \<or> (j \<le> m \<and> m < length (argv s) \<and> IS_LONG_FLAG (argv s ! m)
                 \<and> (\<exists>q. strchr (argv s ! m) (CHR ''='') = Some q
                         \<and> argv a' ! m = (argv s ! m)[q := NUL])))"
proof (induction c j oa s rule: run_loop.induct)
  case (1 c i oa a)
  note run = "1.prems"
  show ?case
  proof (cases "i < length (argv a)")
    case False
    with run show ?thesis by (simp add: run_loop_done)
  next
    case lt: True
    show ?thesis
    proof (cases "cmdapp_step c i oa a")
      case (Inl f)
      with run show ?thesis by (simp add: run_loop_fault[OF lt])
    next
      case (Inr r)
      note fr = step_argv_frame[OF Inr]
      have one: "length (argv (app_of r)) = length (argv a)
           \<and> (\<forall>m. argv (app_of r) ! m = argv a ! m
                  \<or> (m = i \<and> IS_LONG_FLAG (argv a ! m)
                     \<and> (\<exists>q. strchr (argv a ! m) (CHR ''='') = Some q
                             \<and> argv (app_of r) ! m = (argv a ! m)[q := NUL])))"
        using fr lt by (auto simp: nth_list_update split: if_splits)
      show ?thesis
      proof (cases r)
        case (Continue i' oa' a1)
        with Inr have sa: "cmdapp_step c i oa a = Inr (Continue i' oa' a1)" by simp
        from run have run1: "run_loop c (Suc i') oa' a1 = Inr (st, out, a')"
          by (simp add: run_loop_Continue[OF lt sa])
        note IH = "1.IH"[OF lt Inr Continue run1]
        from step_Continue[OF sa] have mono: "i \<le> i'" by simp
        from one Continue have o1: "length (argv a1) = length (argv a)"
          and o2: "\<And>m. argv a1 ! m = argv a ! m
                  \<or> (m = i \<and> IS_LONG_FLAG (argv a ! m)
                     \<and> (\<exists>q. strchr (argv a ! m) (CHR ''='') = Some q
                             \<and> argv a1 ! m = (argv a ! m)[q := NUL]))"
          by simp_all
        have "argv a' ! m = argv a ! m
              \<or> (i \<le> m \<and> m < length (argv a) \<and> IS_LONG_FLAG (argv a ! m)
                 \<and> (\<exists>q. strchr (argv a ! m) (CHR ''='') = Some q
                         \<and> argv a' ! m = (argv a ! m)[q := NUL]))" for m
        proof (cases "Suc i' \<le> m")
          case True
          with mono have "m \<noteq> i" by simp
          with o2[of m] have e: "argv a1 ! m = argv a ! m" by simp
          from IH have "argv a' ! m = argv a1 ! m
              \<or> (Suc i' \<le> m \<and> m < length (argv a1) \<and> IS_LONG_FLAG (argv a1 ! m)
                 \<and> (\<exists>q. strchr (argv a1 ! m) (CHR ''='') = Some q
                         \<and> argv a' ! m = (argv a1 ! m)[q := NUL]))" by blast
          with e o1 True mono show ?thesis by auto
        next
          case False
          with IH have "argv a' ! m = argv a1 ! m" by auto
          with o2[of m] lt show ?thesis by auto
        qed
        with IH o1 show ?thesis by simp
      next
        case (Return st' out' a1)
        with Inr have sa: "cmdapp_step c i oa a = Inr (Return st' out' a1)" by simp
        with run have "a1 = a'" by (simp add: run_loop_Return[OF lt sa])
        with one Return lt show ?thesis by auto
      qed
    qed
  qed
qed

lemma run_loop_values:
  "run_loop c j oa s = Inr (st, out, a') \<Longrightarrow> opt_value a' k = Some ptr
   \<Longrightarrow> opt_value s k = Some ptr
       \<or> (\<exists>m. j \<le> m \<and> m < length (argv s)
              \<and> (ptr = (m, 2) \<or> ptr = (m, 0)
                 \<or> (\<exists>q. strchr (argv s ! m) (CHR ''='') = Some q \<and> ptr = (m, Suc q))))"
proof (induction c j oa s rule: run_loop.induct)
  case (1 c i oa a)
  note run = "1.prems"(1) and v = "1.prems"(2)
  show ?case
  proof (cases "i < length (argv a)")
    case False
    with run v show ?thesis by (simp add: run_loop_done)
  next
    case lt: True
    show ?thesis
    proof (cases "cmdapp_step c i oa a")
      case (Inl f)
      with run show ?thesis by (simp add: run_loop_fault[OF lt])
    next
      case (Inr r)
      have sv: "opt_value a k = Some ptr
         \<or> (\<exists>m. i \<le> m \<and> m < length (argv a)
              \<and> (ptr = (m, 2) \<or> ptr = (m, 0)
                 \<or> (\<exists>q. strchr (argv a ! m) (CHR ''='') = Some q \<and> ptr = (m, Suc q))))"
        if "opt_value (app_of r) k = Some ptr"
        using step_values[OF Inr that] lt by (auto intro: exI[of _ i] exI[of _ "Suc i"])
      show ?thesis
      proof (cases r)
        case (Continue i' oa' a1)
        with Inr have sa: "cmdapp_step c i oa a = Inr (Continue i' oa' a1)" by simp
        from run have run1: "run_loop c (Suc i') oa' a1 = Inr (st, out, a')"
          by (simp add: run_loop_Continue[OF lt sa])
        from step_Continue[OF sa] have mono: "i \<le> i'"
          and len: "length (argv a1) = length (argv a)" by simp_all
        from "1.IH"[OF lt Inr Continue run1 v] consider
            (old) "opt_value a1 k = Some ptr"
          | (new) m where "Suc i' \<le> m" "m < length (argv a1)"
              "ptr = (m, 2) \<or> ptr = (m, 0)
                 \<or> (\<exists>q. strchr (argv a1 ! m) (CHR ''='') = Some q \<and> ptr = (m, Suc q))"
          by blast
        then show ?thesis
        proof cases
          case old
          with sv Continue show ?thesis by simp
        next
          case new
          from new(1) mono have "m \<noteq> i" by simp
          from step_argv_other(1)[OF sa this] have "argv a1 ! m = argv a ! m" by simp
          with new len mono show ?thesis by (intro disjI2 exI[of _ m]) auto
        qed
      next
        case (Return st' out' a1)
        with Inr have sa: "cmdapp_step c i oa a = Inr (Return st' out' a1)" by simp
        with run have "a1 = a'" by (simp add: run_loop_Return[OF lt sa])
        with sv v Return show ?thesis by simp
      qed
    qed
  qed
qed

section \<open>The properties of the specification\<close>

text \<open>
  C1. Registering the option \<open>-v\<close>/\<open>--verbose\<close> without \<open>CMDOPT_TAKESARG\<close> and scanning
  \<open>--verbose\<close> or \<open>-v\<close> should succeed with the option seen and no value. The source
  tests \<open>flags | CMDOPT_TAKESARG\<close>, which is non-zero for every option once the constant is
  a non-zero bit, so the scan of \<open>--verbose\<close> stops with "expects an argument" and
  the option is not marked; the scan of \<open>-v\<close> stops the same way in the short-arg
  branch and reads past the token in the multi-flag branch.
\<close>

theorem C1_boolean_option_is_rejected:
  assumes "CMDOPT_TAKESARG c \<noteq> 0"
  shows "cmdapp_run c (cmdapp_set (cmdapp_init [''prog'', ''--verbose''] m nfo)
                         (CHR ''v'') (Some ''verbose'') 0 None d)
         = Inr (EXIT_FAILURE, Stderr (Expects_an_argument ''--verbose''),
                (cmdapp_set (cmdapp_init [''prog'', ''--verbose''] m nfo)
                   (CHR ''v'') (Some ''verbose'') 0 None d)\<lparr>args := Some [(0, 0)]\<rparr>)
       \<and> cmdapp_run c (cmdapp_set (cmdapp_init [''prog'', ''-v''] m nfo)
                         (CHR ''v'') (Some ''verbose'') 0 None d)
         = (if m OR CMDAPP_MODE_SHORTARG c \<noteq> 0
            then Inr (EXIT_FAILURE, Stderr (Expects_an_argument ''-v''),
                      set_value 0 (Some (1, 2))
                        ((cmdapp_set (cmdapp_init [''prog'', ''-v''] m nfo)
                            (CHR ''v'') (Some ''verbose'') 0 None d)\<lparr>args := Some [(0, 0)]\<rparr>))
            else Inl OutOfBounds)"
  using assms
  by (simp add: eval_defs run_loop.simps multiflag_loop.simps Let_def)

theorem C1_boolean_option_is_rejected_witness:
  "CMDOPT_TAKESARG example_h \<noteq> 0
   \<and> cmdapp_run example_h (cmdapp_set (cmdapp_init [''prog'', ''--verbose''] 1 example_info)
                         (CHR ''v'') (Some ''verbose'') 0 None ''be verbose'')
     = Inr (EXIT_FAILURE, Stderr (Expects_an_argument ''--verbose''),
            (cmdapp_set (cmdapp_init [''prog'', ''--verbose''] 1 example_info)
               (CHR ''v'') (Some ''verbose'') 0 None ''be verbose'')\<lparr>args := Some [(0, 0)]\<rparr>)
   \<and> cmdapp_run example_h (cmdapp_set (cmdapp_init [''prog'', ''-v''] 1 example_info)
                         (CHR ''v'') (Some ''verbose'') 0 None ''be verbose'')
     = Inr (EXIT_FAILURE, Stderr (Expects_an_argument ''-v''),
            set_value 0 (Some (1, 2))
              ((cmdapp_set (cmdapp_init [''prog'', ''-v''] 1 example_info)
                  (CHR ''v'') (Some ''verbose'') 0 None ''be verbose'')\<lparr>args := Some [(0, 0)]\<rparr>))"
proof -
  have h: "CMDOPT_TAKESARG example_h \<noteq> 0" by (simp add: example_h_def)
  show ?thesis
    using h C1_boolean_option_is_rejected [OF h, of 1 example_info "''be verbose''"]
    by (simp add: example_h_def)
qed

text \<open>
  C2. For an argument vector in which no token starts with \<open>-\<close>, the scan succeeds and
  the positional list should be the vector without the program name \<open>argv[0]\<close>. The
  loop of \<open>cmdapp_run\<close> starts at index 0, so \<open>argv[0]\<close> is classified like every
  other token and the positional list is the whole vector, program name first
  (\<open>cmdapp_print_help\<close> prints that same \<open>_argv[0]\<close> as the program name).
\<close>

theorem C2_program_name_is_positional:
  assumes "\<forall>t\<in>set V. \<not> IS_SHORT_FLAG t \<and> NUL \<notin> set t"
  shows "\<exists>a. cmdapp_run c (app\<lparr>argv := V\<rparr>) = Inr (EXIT_SUCCESS, Silent, a)
             \<and> cmdapp_getargs a = Some (tokens_from 0 (length V))
             \<and> positionals a = Some V
             \<and> start a = start app \<and> argv a = V"
proof -
  let ?b = "app\<lparr>argv := V, args := Some []\<rparr>"
  let ?a = "?b\<lparr>args := Some ([] @ tokens_from 0 (length (argv ?b)))\<rparr>"
  have b: "(case args (app\<lparr>argv := V\<rparr>) of
              Some ps \<Rightarrow> app\<lparr>argv := V\<rparr>\<lparr>args := Some []\<rparr>
            | None \<Rightarrow> app\<lparr>argv := V\<rparr>\<lparr>args := Some []\<rparr>) = ?b"
    by (simp split: option.splits)
  have pl: "\<forall>k. 0 \<le> k \<and> k < length (argv ?b) \<longrightarrow> \<not> IS_SHORT_FLAG (argv ?b ! k)"
    using assms by simp
  have run: "cmdapp_run c (app\<lparr>argv := V\<rparr>) = Inr (EXIT_SUCCESS, Silent, ?a)"
    unfolding cmdapp_run_def b by (rule run_loop_plain[OF _ pl]) simp
  have "map cstr V = V" using assms by (simp add: cstr_id map_idI)
  then have "positionals ?a = Some V"
    by (simp add: positionals_def cmdapp_getargs_def cstr_at_tokens)
  with run show ?thesis by (simp add: cmdapp_getargs_def)
qed

theorem C2_program_name_is_positional_witness:
  "\<exists>a. cmdapp_run example_h ((example_app [])\<lparr>argv := [''prog'', ''a'', ''b'']\<rparr>)
         = Inr (EXIT_SUCCESS, Silent, a)
       \<and> positionals a = Some [''prog'', ''a'', ''b'']"
proof -
  have h: "\<forall>t\<in>set [''prog'', ''a'', ''b'']. \<not> IS_SHORT_FLAG t \<and> NUL \<notin> set t"
    by (simp add: IS_SHORT_FLAG_def NUL_def)
  from C2_program_name_is_positional [OF h, of example_h "example_app []"]
  show ?thesis by blast
qed

text \<open>
  C3. A scan does not reset the options at its start. After the sample scan of
  \<open>prog --out=x\<close>, a second scan of the vector \<open>prog\<close> on the same application still shows
  the option \<open>out\<close> as seen with its old value (the pointer stored by the first scan,
  which reads \<open>x\<close> in the storage of the first vector), where the scan of \<open>prog\<close> alone
  leaves it unseen with no value.
\<close>

theorem C3_first_scan_leaks:
  "cmdapp_run example_h (example_app [''prog'', ''--out=x''])
   = Inr (EXIT_SUCCESS, Silent, example_after_out)
   \<and> cmdapp_run example_h (example_after_out\<lparr>argv := [''prog'']\<rparr>)
     = Inr (EXIT_SUCCESS, Silent, example_after_out\<lparr>argv := [''prog''], args := Some [(0, 0)]\<rparr>)
   \<and> seen example_h (example_after_out\<lparr>argv := [''prog''], args := Some [(0, 0)]\<rparr>) 1
   \<and> opt_value (example_after_out\<lparr>argv := [''prog''], args := Some [(0, 0)]\<rparr>) 1 = Some (1, 6)
   \<and> cstr_at (argv example_after_out) (1, 6) = ''x''
   \<and> cmdapp_run example_h ((example_app [''prog'', ''--out=x''])\<lparr>argv := [''prog'']\<rparr>)
     = Inr (EXIT_SUCCESS, Silent, (example_app [''prog''])\<lparr>args := Some [(0, 0)]\<rparr>)
   \<and> \<not> seen example_h ((example_app [''prog''])\<lparr>args := Some [(0, 0)]\<rparr>) 1
   \<and> opt_value ((example_app [''prog''])\<lparr>args := Some [(0, 0)]\<rparr>) 1 = None"
  by (simp add: eval_defs example_defs example_after_out_def run_loop.simps seen_def Let_def
                cstr_at_def)

text \<open>
  C3, amended. A scan empties only the positional list at its start. The second vector
  is other storage than the first: the state after the first scan, \<open>a1\<close>, keeps the
  first vector as the scan left it, and the second scan works on \<open>V2\<close>. With
  \<open>CMDOPT_TAKESARG\<close> a non-zero bit, a scan of \<open>V2\<close> that follows a scan of \<open>V1\<close> on the
  same registry ends like the scan of \<open>V2\<close> alone (the same fault, or the same exit
  status, output, positional list and vector), but the options are not reset. The flags
  of an option after the second scan are those after the scan of \<open>V2\<close> alone together
  with those the first scan left, so every option seen after the first scan is still
  seen. The value of an option is the one the scan of \<open>V2\<close> alone binds, or, where that
  scan leaves the option's value alone, the value the first scan left. For an option
  registered without a value: if the scan of \<open>V2\<close> alone binds no value, the option
  still holds the pointer stored by the first scan, which reads in the first vector's
  storage what it read after the first scan; otherwise it holds the value the scan of
  \<open>V2\<close> alone binds.
\<close>

theorem C3_second_scan_keeps_option_state:
  assumes T: "CMDOPT_TAKESARG c \<noteq> 0"
    and first: "cmdapp_run c (app\<lparr>argv := V1\<rparr>) = Inr (st1, out1, a1)"
  shows "(\<forall>f. cmdapp_run c (app\<lparr>argv := V2\<rparr>) = Inl f
            \<longrightarrow> cmdapp_run c (a1\<lparr>argv := V2\<rparr>) = Inl f)
       \<and> (\<forall>st out a2. cmdapp_run c (app\<lparr>argv := V2\<rparr>) = Inr (st, out, a2) \<longrightarrow>
            (\<exists>a12. cmdapp_run c (a1\<lparr>argv := V2\<rparr>) = Inr (st, out, a12)
                  \<and> cmdapp_getargs a12 = cmdapp_getargs a2 \<and> argv a12 = argv a2
                  \<and> (\<forall>k<length (start app).
                        (seen c a1 k \<longrightarrow> seen c a12 k)
                      \<and> opt_flags a12 k = opt_flags a2 k OR opt_flags a1 k
                      \<and> (opt_value a12 k = opt_value a2 k
                         \<or> (opt_value a2 k = opt_value app k
                            \<and> opt_value a12 k = opt_value a1 k))
                      \<and> (opt_value app k = None \<longrightarrow>
                           (case opt_value a2 k of
                              None \<Rightarrow>
                                opt_value a12 k = opt_value a1 k
                                \<and> map_option (cstr_at (argv a1)) (opt_value a12 k)
                                  = value_string a1 k
                            | Some p \<Rightarrow>
                                opt_value a12 k = Some p
                                \<and> value_string a12 k = value_string a2 k)))))"
proof -
  let ?E = "rescan_rel c (start app) (start a1)"
  let ?n = "Suc (length V2)"
  let ?a = "app\<lparr>argv := V2, args := Some []\<rparr>"
  let ?b = "a1\<lparr>argv := V2, args := Some []\<rparr>"
  note ok = entry_rel_ok_rescan[of c "start app" "start a1"]
  from first have "run_loop c 0 False (app\<lparr>argv := V1, args := Some []\<rparr>) = Inr (st1, out1, a1)"
    by (simp add: cmdapp_run_eq)
  from run_loop_kept[OF this] have k1: "mode a1 = mode app" "info a1 = info app"
    "list_all2 kept (start app) (start a1)"
    by (simp_all add: kept_app_def)
  have len: "length (start a1) = length (start app)"
    using k1(3) by (simp add: list_all2_lengthD)
  from k1(3) have so: "list_all2 (same_option c) (start app) (start a1)"
    by (rule list_all2_mono) (rule kept_same_option[OF T])
  from k1(3) have "\<forall>k<length (start app). kept (start app ! k) (start a1 ! k)"
    by (simp add: list_all2_conv_all_nth)
  then have fl1: "\<forall>k<length (start app).
      flags (result (start a1 ! k)) = flags (result (start app ! k)) OR flags (result (start a1 ! k))"
    by (simp add: kept_def)
  have r0: "?E (start app) (start a1)"
    using so len fl1 by (simp add: rescan_rel_def)
  with k1 have s: "sim ?E ?n True ?a ?b" by (simp add: sim_def)
  have ln: "length (argv ?a) < ?n" by simp
  note sr = sim_run_loop[OF ok s ln, of 0 False]
  show ?thesis
  proof (intro conjI allI impI)
    fix f assume "cmdapp_run c (app\<lparr>argv := V2\<rparr>) = Inl f"
    with sr show "cmdapp_run c (a1\<lparr>argv := V2\<rparr>) = Inl f"
      by (simp add: cmdapp_run_eq)
  next
    fix st out a2 assume "cmdapp_run c (app\<lparr>argv := V2\<rparr>) = Inr (st, out, a2)"
    with sr obtain a12 where r: "cmdapp_run c (a1\<lparr>argv := V2\<rparr>) = Inr (st, out, a12)"
      and s2: "sim ?E ?n True a2 a12"
      by (auto simp: cmdapp_run_eq)
    from s2 have ga: "cmdapp_getargs a12 = cmdapp_getargs a2" "argv a12 = argv a2"
      and rr: "?E (start a2) (start a12)"
      by (simp_all add: sim_def cmdapp_getargs_def)
    from r have rl: "run_loop c 0 False ?b = Inr (st, out, a12)"
      by (simp add: cmdapp_run_eq)
    have per: "(seen c a1 k \<longrightarrow> seen c a12 k)
          \<and> opt_flags a12 k = opt_flags a2 k OR opt_flags a1 k
          \<and> (opt_value a12 k = opt_value a2 k
             \<or> (opt_value a2 k = opt_value app k \<and> opt_value a12 k = opt_value a1 k))
          \<and> (opt_value app k = None \<longrightarrow>
               (case opt_value a2 k of
                  None \<Rightarrow>
                    opt_value a12 k = opt_value a1 k
                    \<and> map_option (cstr_at (argv a1)) (opt_value a12 k) = value_string a1 k
                | Some p \<Rightarrow>
                    opt_value a12 k = Some p \<and> value_string a12 k = value_string a2 k))"
      if k: "k < length (start app)" for k
    proof -
      from rr k have fl: "opt_flags a12 k = opt_flags a2 k OR opt_flags a1 k"
        and vl: "opt_value a12 k = opt_value a2 k
                 \<or> (opt_value a2 k = opt_value app k \<and> opt_value a12 k = opt_value a1 k)"
        by (simp_all add: rescan_rel_def opt_flags_def opt_value_def)
      have sn: "seen c a12 k" if "seen c a1 k"
      proof -
        have "opt_flags a1 k OR opt_flags a12 k = opt_flags a12 k"
          by (simp add: fl or.commute or.left_commute)
        moreover from that have "opt_flags a1 k AND CMDOPT_EXISTS c \<noteq> 0" by (simp add: seen_def)
        ultimately show ?thesis unfolding seen_def by (rule seen_kept)
      qed
      have sh: "(case opt_value a2 k of
                  None \<Rightarrow>
                    opt_value a12 k = opt_value a1 k
                    \<and> map_option (cstr_at (argv a1)) (opt_value a12 k) = value_string a1 k
                | Some p \<Rightarrow>
                    opt_value a12 k = Some p \<and> value_string a12 k = value_string a2 k)"
        if pr: "opt_value app k = None"
      proof (cases "opt_value a2 k")
        case None
        have "opt_value a12 k = opt_value a1 k"
        proof (cases "opt_value a12 k")
          case n12: None
          from run_loop_value_None[OF T rl n12] show ?thesis by (simp add: n12)
        next
          case (Some q)
          with vl None show ?thesis by auto
        qed
        with None show ?thesis by (simp add: value_string_def)
      next
        case (Some p)
        with vl pr have "opt_value a12 k = Some p" by auto
        with Some ga show ?thesis by (simp add: value_string_def)
      qed
      from sn fl vl sh show ?thesis by blast
    qed
    with r ga
    show "\<exists>a12. cmdapp_run c (a1\<lparr>argv := V2\<rparr>) = Inr (st, out, a12)
                  \<and> cmdapp_getargs a12 = cmdapp_getargs a2 \<and> argv a12 = argv a2
                  \<and> (\<forall>k<length (start app).
                        (seen c a1 k \<longrightarrow> seen c a12 k)
                      \<and> opt_flags a12 k = opt_flags a2 k OR opt_flags a1 k
                      \<and> (opt_value a12 k = opt_value a2 k
                         \<or> (opt_value a2 k = opt_value app k
                            \<and> opt_value a12 k = opt_value a1 k))
                      \<and> (opt_value app k = None \<longrightarrow>
                           (case opt_value a2 k of
                              None \<Rightarrow>
                                opt_value a12 k = opt_value a1 k
                                \<and> map_option (cstr_at (argv a1)) (opt_value a12 k)
                                  = value_string a1 k
                            | Some p \<Rightarrow>
                                opt_value a12 k = Some p
                                \<and> value_string a12 k = value_string a2 k)))"
      by blast
  qed
qed

theorem C3_second_scan_keeps_option_state_witness:
  "(\<exists>a12. cmdapp_run example_h (example_after_out\<lparr>argv := [''prog'', ''abcdefgh'']\<rparr>)
           = Inr (EXIT_SUCCESS, Silent, a12)
         \<and> cmdapp_getargs a12 = Some [(0, 0), (1, 0)] \<and> argv a12 = [''prog'', ''abcdefgh'']
         \<and> seen example_h a12 1 \<and> opt_flags a12 1 = 3
         \<and> opt_value a12 1 = Some (1, 6)
         \<and> map_option (cstr_at (argv example_after_out)) (opt_value a12 1) = Some ''x'')
   \<and> (\<exists>a12. cmdapp_run example_h (example_after_out\<lparr>argv := [''prog'', ''--out=yz'']\<rparr>)
           = Inr (EXIT_SUCCESS, Silent, a12)
         \<and> cmdapp_getargs a12 = Some [(0, 0)]
         \<and> argv a12 = [''prog'', ''--out'' @ NUL # ''yz'']
         \<and> seen example_h a12 1 \<and> opt_value a12 1 = Some (1, 6)
         \<and> value_string a12 1 = Some ''yz'')"
proof -
  let ?R = "example_app []"
  have T: "CMDOPT_TAKESARG example_h \<noteq> 0" by (simp add: example_h_def)
  have first: "cmdapp_run example_h (?R\<lparr>argv := [''prog'', ''--out=x'']\<rparr>)
               = Inr (EXIT_SUCCESS, Silent, example_after_out)"
    by (simp add: eval_defs example_defs example_after_out_def run_loop.simps Let_def)
  have alone: "cmdapp_run example_h (?R\<lparr>argv := [''prog'', ''abcdefgh'']\<rparr>)
               = Inr (EXIT_SUCCESS, Silent,
                      (example_app [''prog'', ''abcdefgh''])\<lparr>args := Some [(0, 0), (1, 0)]\<rparr>)"
    by (simp add: eval_defs example_defs run_loop.simps Let_def)
  have alone': "cmdapp_run example_h (?R\<lparr>argv := [''prog'', ''--out=yz'']\<rparr>)
               = Inr (EXIT_SUCCESS, Silent,
                      set_exists example_h 1 (set_value 1 (Some (1, 6))
                        ((example_app [''prog'', ''--out'' @ NUL # ''yz''])
                           \<lparr>args := Some [(0, 0)]\<rparr>)))"
    by (simp add: eval_defs example_defs run_loop.simps Let_def)
  have k: "1 < length (start ?R)" and pr: "opt_value ?R 1 = None"
    by (simp_all add: example_defs opt_value_def)
  have sn: "seen example_h example_after_out 1"
    and f1: "opt_flags example_after_out 1 = 3"
    and v1: "value_string example_after_out 1 = Some ''x''"
            "opt_value example_after_out 1 = Some (1, 6)"
    by (simp_all add: eval_defs example_defs example_after_out_def seen_def value_string_def
                      cstr_at_def)
  have A: "\<exists>a12. cmdapp_run example_h (example_after_out\<lparr>argv := [''prog'', ''abcdefgh'']\<rparr>)
           = Inr (EXIT_SUCCESS, Silent, a12)
         \<and> cmdapp_getargs a12 = Some [(0, 0), (1, 0)] \<and> argv a12 = [''prog'', ''abcdefgh'']
         \<and> seen example_h a12 1 \<and> opt_flags a12 1 = 3
         \<and> opt_value a12 1 = Some (1, 6)
         \<and> map_option (cstr_at (argv example_after_out)) (opt_value a12 1) = Some ''x''"
  proof -
    let ?a2 = "(example_app [''prog'', ''abcdefgh''])\<lparr>args := Some [(0, 0), (1, 0)]\<rparr>"
    from C3_second_scan_keeps_option_state [OF T first, of "[''prog'', ''abcdefgh'']"] alone
    obtain a12 where r: "cmdapp_run example_h (example_after_out\<lparr>argv := [''prog'', ''abcdefgh'']\<rparr>)
                         = Inr (EXIT_SUCCESS, Silent, a12)"
      and g: "cmdapp_getargs a12 = cmdapp_getargs ?a2" "argv a12 = argv ?a2"
      and p: "\<forall>k<length (start ?R).
                (seen example_h example_after_out k \<longrightarrow> seen example_h a12 k)
              \<and> opt_flags a12 k = opt_flags ?a2 k OR opt_flags example_after_out k
              \<and> (opt_value a12 k = opt_value ?a2 k
                 \<or> (opt_value ?a2 k = opt_value ?R k
                    \<and> opt_value a12 k = opt_value example_after_out k))
              \<and> (opt_value ?R k = None \<longrightarrow>
                   (case opt_value ?a2 k of
                      None \<Rightarrow>
                        opt_value a12 k = opt_value example_after_out k
                        \<and> map_option (cstr_at (argv example_after_out)) (opt_value a12 k)
                          = value_string example_after_out k
                    | Some p \<Rightarrow>
                        opt_value a12 k = Some p
                        \<and> value_string a12 k = value_string ?a2 k))"
      by blast
    have v2: "opt_value ?a2 1 = None" "opt_flags ?a2 1 = 1"
      by (simp_all add: example_defs opt_value_def opt_flags_def)
    from p k sn pr v2 f1 v1 have "seen example_h a12 1" "opt_flags a12 1 = 3"
      "opt_value a12 1 = Some (1, 6)"
      "map_option (cstr_at (argv example_after_out)) (opt_value a12 1) = Some ''x''"
      by auto
    moreover from g have "cmdapp_getargs a12 = Some [(0, 0), (1, 0)]"
      "argv a12 = [''prog'', ''abcdefgh'']"
      by (simp_all add: cmdapp_getargs_def example_defs)
    ultimately show ?thesis using r by blast
  qed
  have B: "\<exists>a12. cmdapp_run example_h (example_after_out\<lparr>argv := [''prog'', ''--out=yz'']\<rparr>)
           = Inr (EXIT_SUCCESS, Silent, a12)
         \<and> cmdapp_getargs a12 = Some [(0, 0)]
         \<and> argv a12 = [''prog'', ''--out'' @ NUL # ''yz'']
         \<and> seen example_h a12 1 \<and> opt_value a12 1 = Some (1, 6)
         \<and> value_string a12 1 = Some ''yz''"
  proof -
    let ?a2 = "set_exists example_h 1 (set_value 1 (Some (1, 6))
                 ((example_app [''prog'', ''--out'' @ NUL # ''yz''])\<lparr>args := Some [(0, 0)]\<rparr>))"
    from C3_second_scan_keeps_option_state [OF T first, of "[''prog'', ''--out=yz'']"] alone'
    obtain a12 where r: "cmdapp_run example_h (example_after_out\<lparr>argv := [''prog'', ''--out=yz'']\<rparr>)
                         = Inr (EXIT_SUCCESS, Silent, a12)"
      and g: "cmdapp_getargs a12 = cmdapp_getargs ?a2" "argv a12 = argv ?a2"
      and p: "\<forall>k<length (start ?R).
                (seen example_h example_after_out k \<longrightarrow> seen example_h a12 k)
              \<and> opt_flags a12 k = opt_flags ?a2 k OR opt_flags example_after_out k
              \<and> (opt_value a12 k = opt_value ?a2 k
                 \<or> (opt_value ?a2 k = opt_value ?R k
                    \<and> opt_value a12 k = opt_value example_after_out k))
              \<and> (opt_value ?R k = None \<longrightarrow>
                   (case opt_value ?a2 k of
                      None \<Rightarrow>
                        opt_value a12 k = opt_value example_after_out k
                        \<and> map_option (cstr_at (argv example_after_out)) (opt_value a12 k)
                          = value_string example_after_out k
                    | Some p \<Rightarrow>
                        opt_value a12 k = Some p
                        \<and> value_string a12 k = value_string ?a2 k))"
      by blast
    have v2: "opt_value ?a2 1 = Some (1, 6)" "value_string ?a2 1 = Some ''yz''"
      by (simp_all add: eval_defs example_defs value_string_def cstr_at_def)
    from p k sn pr v2 have "seen example_h a12 1" "opt_value a12 1 = Some (1, 6)"
      "value_string a12 1 = Some ''yz''"
      by auto
    moreover from g have "cmdapp_getargs a12 = Some [(0, 0)]"
      "argv a12 = [''prog'', ''--out'' @ NUL # ''yz'']"
      by (simp_all add: cmdapp_getargs_def example_defs)
    ultimately show ?thesis using r by blast
  qed
  from A B show ?thesis by (rule conjI)
qed




text \<open>
  C5. Scans of a vector whose tokens before the flag do not start with \<open>-\<close>, with an
  argument-taking option registered under the long name \<open>name\<close> at the entry \<open>k\<close>, the
  first entry with that name. \<open>cmdapp_search\<close> hands the \<open>longo\<close> of every entry before
  the match to \<open>strcmp\<close>. An option may be registered without a long name
  (\<open>cmdapp_print_help\<close> tests \<open>longo\<close> before it prints it), and when such an option is
  registered before entry \<open>k\<close> the scan of \<open>--name\<close> or of \<open>--name=val\<close> dereferences
  NULL: there is no "expects an argument" and no value bound.
  When every entry before \<open>k\<close> has a long name, the token \<open>--name\<close> ends the scan with
  \<open>EXIT_FAILURE\<close> and "expects an argument", and the token \<open>--name=val\<close> passes: the
  scan goes on with the token after it (and returns \<open>EXIT_SUCCESS\<close> when there is
  none), the option's value reading exactly \<open>val\<close> and \<open>CMDOPT_EXISTS\<close> set in its flags.
\<close>

theorem C5_long_option_lookup_and_value:
  assumes pre: "\<forall>t\<in>set pre. \<not> IS_SHORT_FLAG t"
    and k: "k < length (start app)"
    and nm: "longo (result (start app ! k)) = Some name"
    and fm: "\<forall>j<k. longo (result (start app ! j)) \<noteq> Some name"
    and takes: "opt_flags app k AND CMDOPT_TAKESARG c \<noteq> 0"
    and name: "name \<noteq> []" "CHR ''='' \<notin> set name" "NUL \<notin> set name"
    and val: "NUL \<notin> set val"
  shows "cmdapp_run c (app\<lparr>argv := pre @ [''--'' @ name] @ post\<rparr>)
         = (if \<forall>j<k. longo (result (start app ! j)) \<noteq> None
            then Inr (EXIT_FAILURE, Stderr (Expects_an_argument (''--'' @ name)),
                      app\<lparr>argv := pre @ [''--'' @ name] @ post,
                          args := Some (tokens_from 0 (length pre))\<rparr>)
            else Inl NullDeref)
       \<and> cmdapp_run c (app\<lparr>argv := pre @ [''--'' @ name @ ''='' @ val] @ post\<rparr>)
         = (if \<forall>j<k. longo (result (start app ! j)) \<noteq> None
            then run_loop c (Suc (length pre)) False
                   (set_exists c k (set_value k (Some (length pre, length name + 3))
                      (app\<lparr>argv := pre @ [''--'' @ name @ [NUL] @ val] @ post,
                           args := Some (tokens_from 0 (length pre))\<rparr>)))
            else Inl NullDeref)
       \<and> cmdapp_run c (app\<lparr>argv := pre @ [''--'' @ name @ ''='' @ val]\<rparr>)
         = (if \<forall>j<k. longo (result (start app ! j)) \<noteq> None
            then Inr (EXIT_SUCCESS, Silent,
                   set_exists c k (set_value k (Some (length pre, length name + 3))
                      (app\<lparr>argv := pre @ [''--'' @ name @ [NUL] @ val],
                           args := Some (tokens_from 0 (length pre))\<rparr>)))
            else Inl NullDeref)
       \<and> value_string
            (set_exists c k (set_value k (Some (length pre, length name + 3))
               (app\<lparr>argv := pre @ [''--'' @ name @ [NUL] @ val] @ post,
                    args := Some (tokens_from 0 (length pre))\<rparr>))) k = Some val
       \<and> opt_flags
            (set_exists c k (set_value k (Some (length pre, length name + 3))
               (app\<lparr>argv := pre @ [''--'' @ name @ [NUL] @ val] @ post,
                    args := Some (tokens_from 0 (length pre))\<rparr>))) k
         = opt_flags app k OR CMDOPT_EXISTS c"
proof -
  let ?i = "length pre"
  let ?all = "\<forall>j<k. longo (result (start app ! j)) \<noteq> None"
  have t: "opt_flags app k OR CMDOPT_TAKESARG c \<noteq> 0"
    using takes by (rule and_nonzero_or_nonzero)
  have look: "cmdapp_search a NUL (Some name)
              = (if ?all then Inr (Some k) else Inl NullDeref)"
    if "start a = start app" for a
    using search_long_first[OF k nm fm, of 0] that by (simp add: cmdapp_search_def)
  have A: "cmdapp_run c (app\<lparr>argv := pre @ [''--'' @ name] @ post\<rparr>)
         = (if ?all
            then Inr (EXIT_FAILURE, Stderr (Expects_an_argument (''--'' @ name)),
                      app\<lparr>argv := pre @ [''--'' @ name] @ post,
                          args := Some (tokens_from 0 (length pre))\<rparr>)
            else Inl NullDeref)" for post
  proof -
    let ?s = "app\<lparr>argv := pre @ [''--'' @ name] @ post,
                  args := Some (tokens_from 0 (length pre))\<rparr>"
    have i: "?i < length (argv ?s)" by simp
    have tok: "argv ?s ! ?i = ''--'' @ name" by (simp add: nth_append)
    have nn: "NUL \<notin> set (''--'' @ name)" using name by simp
    have long: "IS_LONG_FLAG (argv ?s ! ?i)" "\<not> IS_END_OF_FLAGS (argv ?s ! ?i)"
      using name byte_2_name[where name=name and rest="[]"]
      by (simp_all add: tok IS_LONG_FLAG_def IS_END_OF_FLAGS_def)
    have noeq: "strchr (argv ?s ! ?i) (CHR ''='') = None"
      using name by (simp add: tok strchr_None)
    have nmq: "cstr (drop 2 (argv ?s ! ?i)) = name"
      using cstr_id[OF name(3)] by (simp add: tok)
    have cs: "cstr (argv ?s ! ?i) = ''--'' @ name"
      using cstr_id[OF nn] by (simp add: tok)
    have run: "cmdapp_run c (app\<lparr>argv := pre @ [''--'' @ name] @ post\<rparr>)
               = run_loop c ?i False ?s"
      by (rule cmdapp_run_prefix[OF pre])
    show ?thesis
    proof (cases ?all)
      case True
      then have f: "cmdapp_search ?s NUL (Some (cstr (drop 2 (argv ?s ! ?i)))) = Inr (Some k)"
        unfolding nmq using look[of ?s] by simp
      have ts: "opt_flags ?s k OR CMDOPT_TAKESARG c \<noteq> 0" using t by (simp add: opt_flags_def)
      have "cmdapp_step c ?i False ?s
            = Inr (Return EXIT_FAILURE (Stderr (Expects_an_argument (cstr (argv ?s ! ?i)))) ?s)"
        by (simp only: step_long[OF long] long_flag_found_noarg[OF noeq f] ts if_True
                       not_False_eq_True)
      then have "cmdapp_step c ?i False ?s
            = Inr (Return EXIT_FAILURE (Stderr (Expects_an_argument (''--'' @ name))) ?s)"
        unfolding cs .
      from run_loop_Return[OF i this] show ?thesis by (simp only: run if_P[OF True])
    next
      case False
      then have f: "cmdapp_search ?s NUL (Some (cstr (drop 2
                      (case strchr (argv ?s ! ?i) (CHR ''='') of
                         None \<Rightarrow> argv ?s ! ?i
                       | Some p \<Rightarrow> (argv ?s ! ?i)[p := NUL])))) = Inl NullDeref"
        unfolding noeq option.case nmq using look[of ?s] by simp
      have "cmdapp_step c ?i False ?s = Inl NullDeref"
        by (simp only: step_long[OF long] long_flag_fault[OF f i])
      from run_loop_fault[OF i this] show ?thesis by (simp only: run if_not_P[OF False])
    qed
  qed
  have B: "cmdapp_run c (app\<lparr>argv := pre @ [''--'' @ name @ ''='' @ val] @ post\<rparr>)
         = (if ?all
            then run_loop c (Suc (length pre)) False
                   (set_exists c k (set_value k (Some (length pre, length name + 3))
                      (app\<lparr>argv := pre @ [''--'' @ name @ [NUL] @ val] @ post,
                           args := Some (tokens_from 0 (length pre))\<rparr>)))
            else Inl NullDeref)" for post
  proof -
    let ?tk = "''--'' @ name @ ''='' @ val"
    let ?s = "app\<lparr>argv := pre @ [?tk] @ post, args := Some (tokens_from 0 (length pre))\<rparr>"
    let ?p = "''--'' @ name"
    have i: "?i < length (argv ?s)" by simp
    have tok: "argv ?s ! ?i = ?p @ CHR ''='' # val" by (simp add: nth_append)
    have long: "IS_LONG_FLAG (argv ?s ! ?i)" "\<not> IS_END_OF_FLAGS (argv ?s ! ?i)"
      using name byte_2_name[where name=name and rest="CHR ''='' # val"]
      by (simp_all add: tok IS_LONG_FLAG_def IS_END_OF_FLAGS_def)
    have eq: "strchr (argv ?s ! ?i) (CHR ''='') = Some (length ?p)"
      unfolding tok using name by (intro strchr_Some_append) simp_all
    have upd: "(argv ?s ! ?i)[length ?p := NUL] = ?p @ NUL # val"
      unfolding tok by (simp only: list_update_length)
    have nmq: "cstr (drop 2 (?p @ NUL # val)) = name"
      using cstr_append_NUL[OF name(3), of val] by simp
    have av: "(argv ?s)[?i := ?p @ NUL # val] = pre @ [''--'' @ name @ [NUL] @ val] @ post"
      by (simp add: list_update_append)
    have run: "cmdapp_run c (app\<lparr>argv := pre @ [?tk] @ post\<rparr>) = run_loop c ?i False ?s"
      by (rule cmdapp_run_prefix[OF pre])
    show ?thesis
    proof (cases ?all)
      case True
      then have f: "cmdapp_search ?s NUL
               (Some (cstr (drop 2 ((argv ?s ! ?i)[length ?p := NUL])))) = Inr (Some k)"
        unfolding upd nmq using look[of ?s] by simp
      let ?t = "app\<lparr>argv := pre @ [''--'' @ name @ [NUL] @ val] @ post,
                    args := Some (tokens_from 0 (length pre))\<rparr>"
      let ?a = "set_exists c k (set_value k (Some (?i, length name + 3)) ?t)"
      have st: "?s\<lparr>argv := (argv ?s)[?i := (argv ?s ! ?i)[length ?p := NUL]]\<rparr> = ?t"
        unfolding upd by (simp add: list_update_append)
      have pl: "Suc (length ?p) = length name + 3" by simp
      have ts: "opt_flags ?s k OR CMDOPT_TAKESARG c \<noteq> 0" using t by (simp add: opt_flags_def)
      have lf: "long_flag c ?i ?s = Inr (Continue ?i False ?a)"
        by (simp only: long_flag_found_arg[OF i eq f] ts if_True not_False_eq_True st pl)
      then have "cmdapp_step c ?i False ?s = Inr (Continue ?i False ?a)"
        by (simp only: step_long[OF long])
      from run_loop_Continue[OF i this] have "run_loop c ?i False ?s = run_loop c (Suc ?i) False ?a" .
      then show ?thesis by (simp only: run if_P[OF True])
    next
      case False
      then have f: "cmdapp_search ?s NUL (Some (cstr (drop 2
                      (case strchr (argv ?s ! ?i) (CHR ''='') of
                         None \<Rightarrow> argv ?s ! ?i
                       | Some p \<Rightarrow> (argv ?s ! ?i)[p := NUL])))) = Inl NullDeref"
        unfolding eq option.case upd nmq using look[of ?s] by simp
      have "cmdapp_step c ?i False ?s = Inl NullDeref"
        by (simp only: step_long[OF long] long_flag_fault[OF f i])
      from run_loop_fault[OF i this] show ?thesis by (simp only: run if_not_P[OF False])
    qed
  qed
  let ?b = "\<lambda>post. set_exists c k (set_value k (Some (length pre, length name + 3))
               (app\<lparr>argv := pre @ [''--'' @ name @ [NUL] @ val] @ post,
                    args := Some (tokens_from 0 (length pre))\<rparr>))"
  have C: "run_loop c (Suc (length pre)) False (?b []) = Inr (EXIT_SUCCESS, Silent, ?b [])"
    by (rule run_loop_done) simp
  have dr: "drop (length name + 3) (''--'' @ name @ [NUL] @ val) = val"
    by (simp add: numeral_3_eq_3)
  have vs: "value_string (?b post) k = Some val"
    using k cstr_id[OF val] dr
    by (simp add: value_string_def opt_value_set_value cstr_at_def nth_append)
  have fl: "opt_flags (?b post) k = opt_flags app k OR CMDOPT_EXISTS c"
    using k by (simp add: opt_flags_set_exists)
  from A[of post] B[of post] B[of "[]"] C vs fl show ?thesis by simp
qed

theorem C5_long_option_lookup_and_value_witness:
  "cmdapp_run example_h (example_short_first [''prog'', ''--out=file.txt'']) = Inl NullDeref
   \<and> cmdapp_run example_h (example_short_first [''prog'', ''--out'']) = Inl NullDeref
   \<and> cmdapp_run example_h (example_app [''prog'', ''--out''])
     = Inr (EXIT_FAILURE, Stderr (Expects_an_argument ''--out''),
            (example_app [''prog'', ''--out''])\<lparr>args := Some [(0, 0)]\<rparr>)
   \<and> (\<exists>a. cmdapp_run example_h (example_app [''prog'', ''--out=file.txt''])
            = Inr (EXIT_SUCCESS, Silent, a)
          \<and> argv a = [''prog'', ''--out'' @ [NUL] @ ''file.txt'']
          \<and> value_string a 1 = Some ''file.txt'' \<and> opt_flags a 1 = 3 \<and> seen example_h a 1)"
proof -
  let ?S = "example_short_first []" and ?A = "example_app []"
  have pre: "\<forall>t\<in>set [''prog'']. \<not> IS_SHORT_FLAG t"
    by (simp add: IS_SHORT_FLAG_def)
  have n: "''out'' \<noteq> []" "CHR ''='' \<notin> set ''out''" "NUL \<notin> set ''out''"
          "NUL \<notin> set ''file.txt''"
    by (simp_all add: NUL_def)
  have S: "1 < length (start ?S)" "longo (result (start ?S ! 1)) = Some ''out''"
    "\<forall>j<1. longo (result (start ?S ! j)) \<noteq> Some ''out''"
    "opt_flags ?S 1 AND CMDOPT_TAKESARG example_h \<noteq> 0"
    "\<not> (\<forall>j<1. longo (result (start ?S ! j)) \<noteq> None)"
    by (simp_all add: example_short_first_def example_defs opt_flags_def)
  have A: "1 < length (start ?A)" "longo (result (start ?A ! 1)) = Some ''out''"
    "\<forall>j<1. longo (result (start ?A ! j)) \<noteq> Some ''out''"
    "opt_flags ?A 1 AND CMDOPT_TAKESARG example_h \<noteq> 0"
    "\<forall>j<1. longo (result (start ?A ! j)) \<noteq> None"
    by (simp_all add: example_defs opt_flags_def)
  have eS: "(example_short_first [])\<lparr>argv := V\<rparr> = example_short_first V" for V
    by (simp add: example_short_first_def example_defs)
  have eA: "(example_app [])\<lparr>argv := V\<rparr> = example_app V" for V
    by (simp add: example_defs)
  note CS = C5_long_option_lookup_and_value [OF pre S(1,2,3,4) n, where post="[]"]
  note CA = C5_long_option_lookup_and_value [OF pre A(1,2,3,4) n, where post="[]"]
  let ?b = "set_exists example_h 1 (set_value 1 (Some (length [''prog''], length ''out'' + 3))
              (?A\<lparr>argv := [''prog''] @ [''--'' @ ''out'' @ [NUL] @ ''file.txt''] @ [],
                   args := Some (tokens_from 0 (length [''prog'']))\<rparr>))"
  note CS1 = CS[THEN conjunct1] and CS3 = CS[THEN conjunct2, THEN conjunct2, THEN conjunct1]
  note CA1 = CA[THEN conjunct1] and CA3 = CA[THEN conjunct2, THEN conjunct2, THEN conjunct1]
    and CA4 = CA[THEN conjunct2, THEN conjunct2, THEN conjunct2]
  from CS1 CS3 S(5) have 1: "cmdapp_run example_h (example_short_first [''prog'', ''--out=file.txt''])
           = Inl NullDeref"
    and 2: "cmdapp_run example_h (example_short_first [''prog'', ''--out'']) = Inl NullDeref"
    by (simp_all add: eS)
  from CA1 A(5) have 3: "cmdapp_run example_h (example_app [''prog'', ''--out''])
           = Inr (EXIT_FAILURE, Stderr (Expects_an_argument ''--out''),
                  (example_app [''prog'', ''--out''])\<lparr>args := Some [(0, 0)]\<rparr>)"
    by (simp add: eA tokens_from_def)
  from CA3 A(5) have 4: "cmdapp_run example_h (example_app [''prog'', ''--out=file.txt''])
           = Inr (EXIT_SUCCESS, Silent, ?b)"
    by (simp add: eA)
  from CA4 have 5: "value_string ?b 1 = Some ''file.txt''"
    "opt_flags ?b 1 = opt_flags ?A 1 OR CMDOPT_EXISTS example_h"
    by simp_all
  have 6: "opt_flags ?A 1 OR CMDOPT_EXISTS example_h = 3"
    by (simp add: example_defs opt_flags_def)
  have 7: "argv ?b = [''prog'', ''--out'' @ [NUL] @ ''file.txt'']" by simp
  have 8: "seen example_h ?b 1"
    unfolding seen_def 5(2) 6 by (simp add: example_h_def)
  have 9: "opt_flags ?b 1 = 3" unfolding 5(2) 6 ..
  from 1 2 3 4 5(1) 7 8 9 show ?thesis by blast
qed

text \<open>
  C6. Short-arg branch, for a token \<open>-x...\<close> whose option the short-name lookup finds and
  whose flags contain \<open>CMDOPT_TAKESARG\<close>. The source stores \<open>current + 2\<close> as the value
  and then looks at the next token in every case: if there is one that does not start
  with \<open>-\<close>, it replaces the value and is consumed; if not, the scan stops with
  "expects an argument". Characters after the option character are therefore never
  the value of a scan that goes on: \<open>-oVALUE\<close> alone fails, and \<open>-oVALUE next\<close>
  binds \<open>next\<close>.
\<close>

theorem C6_inline_remainder_is_not_bound:
  assumes i: "i < length (argv app)"
    and tok: "argv app ! i = CHR ''-'' # sh # rest"
    and sh: "sh \<noteq> CHR ''-''"
    and md: "mode app OR CMDAPP_MODE_SHORTARG c \<noteq> 0"
    and found: "cmdapp_search app sh None = Inr (Some k)"
    and takes: "opt_flags app k AND CMDOPT_TAKESARG c \<noteq> 0"
  shows "(Suc i < length (argv app) \<and> byte (argv app ! Suc i) 0 \<noteq> CHR ''-'' \<longrightarrow>
           (\<exists>a. cmdapp_step c i False app = Inr (Continue (Suc i) False a)
                \<and> opt_value a k = Some (Suc i, 0)
                \<and> value_string a k = Some (cstr (argv app ! Suc i))
                \<and> opt_flags a k = opt_flags app k OR CMDOPT_EXISTS c))
       \<and> (\<not> (Suc i < length (argv app) \<and> byte (argv app ! Suc i) 0 \<noteq> CHR ''-'') \<longrightarrow>
           (\<exists>a. cmdapp_step c i False app
                  = Inr (Return EXIT_FAILURE (Stderr (Expects_an_argument [CHR ''-'', sh])) a)
                \<and> opt_value a k = Some (i, 2)
                \<and> opt_flags a k = opt_flags app k))"
proof -
  have k: "k < length (start app)" using found by (rule cmdapp_search_bound)
  have t: "opt_flags app k OR CMDOPT_TAKESARG c \<noteq> 0"
    using takes by (rule and_nonzero_or_nonzero)
  have fl: "IS_SHORT_FLAG (argv app ! i)" "\<not> IS_LONG_FLAG (argv app ! i)"
    using sh by (simp_all add: tok IS_SHORT_FLAG_def IS_LONG_FLAG_def)
  have f: "cmdapp_search app (byte (argv app ! i) 1) None = Inr (Some k)"
    using found by (simp add: tok)
  have b: "byte (argv app ! i) 1 = sh" by (simp add: tok)
  note st = step_short[OF fl, of c] shortarg_flag_found[OF f t]
  show ?thesis
    using k md by (simp add: st tok opt_value_set_value opt_flags_set_exists value_string_def cstr_at_def)
qed

theorem C6_inline_remainder_is_not_bound_witness:
  "(\<exists>a. cmdapp_step example_h 1 False (example_app [''prog'', ''-oVALUE''])
         = Inr (Return EXIT_FAILURE (Stderr (Expects_an_argument ''-o'')) a)
        \<and> opt_value a 1 = Some (1, 2))
   \<and> (\<exists>a. cmdapp_step example_h 1 False (example_app [''prog'', ''-oVALUE'', ''next''])
         = Inr (Continue 2 False a)
        \<and> value_string a 1 = Some ''next'')"
proof -
  let ?A = "example_app [''prog'', ''-oVALUE'']"
  let ?B = "example_app [''prog'', ''-oVALUE'', ''next'']"
  have A: "1 < length (argv ?A)" "argv ?A ! 1 = CHR ''-'' # CHR ''o'' # ''VALUE''"
          "mode ?A OR CMDAPP_MODE_SHORTARG example_h \<noteq> 0"
          "cmdapp_search ?A (CHR ''o'') None = Inr (Some 1)"
          "opt_flags ?A 1 AND CMDOPT_TAKESARG example_h \<noteq> 0"
          "\<not> (Suc 1 < length (argv ?A) \<and> byte (argv ?A ! Suc 1) 0 \<noteq> CHR ''-'')"
    by (simp_all add: example_defs cmdapp_search_def opt_flags_def)
  have B: "1 < length (argv ?B)" "argv ?B ! 1 = CHR ''-'' # CHR ''o'' # ''VALUE''"
          "mode ?B OR CMDAPP_MODE_SHORTARG example_h \<noteq> 0"
          "cmdapp_search ?B (CHR ''o'') None = Inr (Some 1)"
          "opt_flags ?B 1 AND CMDOPT_TAKESARG example_h \<noteq> 0"
          "Suc 1 < length (argv ?B) \<and> byte (argv ?B ! Suc 1) 0 \<noteq> CHR ''-''"
          "cstr (argv ?B ! Suc 1) = ''next''"
    by (simp_all add: example_defs cmdapp_search_def opt_flags_def cstr_def NUL_def)
  have o: "CHR ''o'' \<noteq> CHR ''-''" by simp
  have 1: "\<exists>a. cmdapp_step example_h 1 False ?A
         = Inr (Return EXIT_FAILURE (Stderr (Expects_an_argument ''-o'')) a)
        \<and> opt_value a 1 = Some (1, 2)"
    using C6_inline_remainder_is_not_bound [OF A(1) A(2) o A(3) A(4) A(5)] A(6) by blast
  have 2: "\<exists>a. cmdapp_step example_h 1 False ?B = Inr (Continue 2 False a)
        \<and> value_string a 1 = Some ''next''"
    using C6_inline_remainder_is_not_bound [OF B(1) B(2) o B(3) B(4) B(5)] B(6) B(7)
    by (metis Suc_1)
  from 1 2 show ?thesis by blast
qed

text \<open>
  C7. Not every token \<open>--\<close> is kept out of the positional list: once the first one has
  switched the scan to positional-only mode, a later \<open>--\<close> is appended like any other
  token. Scanning \<open>prog -- --\<close> gives the positional list \<open>prog\<close>, \<open>--\<close>.
\<close>

theorem C7_second_marker_is_positional:
  "cmdapp_run example_h (example_app [''prog'', ''--'', ''--''])
   = Inr (EXIT_SUCCESS, Silent, (example_app [''prog'', ''--'', ''--''])\<lparr>args := Some [(0, 0), (2, 0)]\<rparr>)
   \<and> positionals ((example_app [''prog'', ''--'', ''--''])\<lparr>args := Some [(0, 0), (2, 0)]\<rparr>)
     = Some [''prog'', ''--'']"
  by (simp add: eval_defs example_defs run_loop.simps positionals_def cmdapp_getargs_def
                cstr_at_def Let_def)

text \<open>
  C7, amended. When the loop reaches a token \<open>--\<close> while it still classifies flags, that
  token is consumed as the marker and not added to the positional list, and the scan
  then succeeds with every later token, whatever it looks like, appended in order as
  it stands: no option, no byte of the vector and no earlier positional entry changes.
\<close>

theorem C7_first_marker_ends_options:
  assumes "i < length (argv app)" "IS_END_OF_FLAGS (argv app ! i)" "args app = Some ps"
  shows "run_loop c i False app
         = Inr (EXIT_SUCCESS, Silent,
                app\<lparr>args := Some (ps @ tokens_from (Suc i) (length (argv app)))\<rparr>)"
proof -
  have "run_loop c i False app = run_loop c (Suc i) True app"
    by (rule run_loop_Continue[OF assms(1) step_end_of_flags[OF assms(2)]])
  then show ?thesis by (simp add: run_loop_only_args[OF assms(3)])
qed

theorem C7_first_marker_ends_options_witness:
  "1 < length (argv ((example_app [''prog'', ''--'', ''-x'', ''--'', ''--y''])\<lparr>args := Some [(0, 0)]\<rparr>))
   \<and> IS_END_OF_FLAGS
        (argv ((example_app [''prog'', ''--'', ''-x'', ''--'', ''--y''])\<lparr>args := Some [(0, 0)]\<rparr>) ! 1)
   \<and> run_loop example_h 1 False
        ((example_app [''prog'', ''--'', ''-x'', ''--'', ''--y''])\<lparr>args := Some [(0, 0)]\<rparr>)
     = Inr (EXIT_SUCCESS, Silent,
            (example_app [''prog'', ''--'', ''-x'', ''--'', ''--y''])
              \<lparr>args := Some [(0, 0), (2, 0), (3, 0), (4, 0)]\<rparr>)"
proof -
  let ?A = "(example_app [''prog'', ''--'', ''-x'', ''--'', ''--y''])\<lparr>args := Some [(0, 0)]\<rparr>"
  have h: "1 < length (argv ?A)" "IS_END_OF_FLAGS (argv ?A ! 1)" "args ?A = Some [(0, 0)]"
    by (simp_all add: example_defs IS_END_OF_FLAGS_def byte_def NUL_def)
  have t: "[(0, 0)] @ tokens_from (Suc 1) (length (argv ?A)) = [(0, 0), (2, 0), (3, 0), (4, 0)]"
    by (simp add: tokens_from_def example_defs upt_rec)
  have "run_loop example_h 1 False ?A
        = Inr (EXIT_SUCCESS, Silent, ?A\<lparr>args := Some [(0, 0), (2, 0), (3, 0), (4, 0)]\<rparr>)"
    using C7_first_marker_ends_options [OF h, of example_h] by (simp only: t)
  with h show ?thesis by simp
qed

text \<open>
  C8. A cluster \<open>-abc\<close> of three registered options without argument should mark all
  three as seen. For every value of the constants of app.h and every mode the scan
  stops at the token with a diagnostic about \<open>-a\<close> and no option is marked: the
  multi-flag loop looks up \<open>current[1]\<close> on every round instead of \<open>current[j]\<close>, asks
  for a following token whenever \<open>current[4]\<close> is the terminator and never sets
  \<open>CMDOPT_EXISTS\<close>; the short-arg branch takes only the first character.
  In general, a pass through the multi-flag loop whose first character is registered
  leaves the flags of every option as they were, and can only fail with "expects an
  argument" for that first character: later characters are never looked up.
\<close>

theorem C8_cluster_is_not_resolved:
  "(\<exists>d a. cmdapp_run c
            (cmdapp_set (cmdapp_set (cmdapp_set (cmdapp_init [''prog'', ''-abc''] m nfo)
               (CHR ''a'') None 0 None da) (CHR ''b'') None 0 None db) (CHR ''c'') None 0 None dc)
          = Inr (EXIT_FAILURE, Stderr d, a)
        \<and> (d = Expects_an_argument ''-a'' \<or> d = Does_not_take_arguments ''-a'')
        \<and> opt_flags a 0 = 0 \<and> opt_flags a 1 = 0 \<and> opt_flags a 2 = 0)
   \<and> (mode app OR CMDAPP_MODE_SHORTARG c = 0
        \<and> IS_SHORT_FLAG (argv app ! i) \<and> \<not> IS_LONG_FLAG (argv app ! i)
        \<and> cmdapp_search app (byte (argv app ! i) 1) None = Inr (Some k0)
        \<and> cmdapp_step c i False app = Inr r
      \<longrightarrow> (\<forall>k. opt_flags (app_of r) k = opt_flags app k)
        \<and> (\<forall>st out a. r = Return st out a
              \<longrightarrow> st = EXIT_FAILURE
                \<and> out = Stderr (Expects_an_argument [CHR ''-'', byte (argv app ! i) 1])))"
proof (rule conjI)
  show "\<exists>d a. cmdapp_run c
            (cmdapp_set (cmdapp_set (cmdapp_set (cmdapp_init [''prog'', ''-abc''] m nfo)
               (CHR ''a'') None 0 None da) (CHR ''b'') None 0 None db) (CHR ''c'') None 0 None dc)
          = Inr (EXIT_FAILURE, Stderr d, a)
        \<and> (d = Expects_an_argument ''-a'' \<or> d = Does_not_take_arguments ''-a'')
        \<and> opt_flags a 0 = 0 \<and> opt_flags a 1 = 0 \<and> opt_flags a 2 = 0"
    by (simp add: eval_defs run_loop.simps multiflag_loop.simps Let_def)
next
  have "(\<forall>k. opt_flags (app_of r) k = opt_flags app k)
        \<and> (\<forall>st out a. r = Return st out a
              \<longrightarrow> st = EXIT_FAILURE
                \<and> out = Stderr (Expects_an_argument [CHR ''-'', byte (argv app ! i) 1]))"
    if h: "mode app OR CMDAPP_MODE_SHORTARG c = 0
        \<and> IS_SHORT_FLAG (argv app ! i) \<and> \<not> IS_LONG_FLAG (argv app ! i)
        \<and> cmdapp_search app (byte (argv app ! i) 1) None = Inr (Some k0)
        \<and> cmdapp_step c i False app = Inr r"
  proof -
    from h have fl: "IS_SHORT_FLAG (argv app ! i)" "\<not> IS_LONG_FLAG (argv app ! i)"
      and md: "mode app OR CMDAPP_MODE_SHORTARG c = 0"
      and st: "cmdapp_step c i False app = Inr r"
      and f: "cmdapp_search app (byte (argv app ! i) 1) None = Inr (Some k0)"
      by simp_all
    from st md have "multiflag_loop (argv app ! i) i
                 (if Suc i < length (argv app) then Some (Suc i) else None) 1 i app = Inr r"
      by (simp only: step_short[OF fl] if_False simp_thms)
    from multiflag_loop_shape[OF this f] show ?thesis .
  qed
  then show "mode app OR CMDAPP_MODE_SHORTARG c = 0
        \<and> IS_SHORT_FLAG (argv app ! i) \<and> \<not> IS_LONG_FLAG (argv app ! i)
        \<and> cmdapp_search app (byte (argv app ! i) 1) None = Inr (Some k0)
        \<and> cmdapp_step c i False app = Inr r
      \<longrightarrow> (\<forall>k. opt_flags (app_of r) k = opt_flags app k)
        \<and> (\<forall>st out a. r = Return st out a
              \<longrightarrow> st = EXIT_FAILURE
                \<and> out = Stderr (Expects_an_argument [CHR ''-'', byte (argv app ! i) 1]))"
    by (rule impI)
qed

theorem C8_cluster_is_not_resolved_witness:
  "\<exists>a. cmdapp_step example_h0 1 False (example_multi [''prog'', ''-axyz!''])
         = Inr (Continue 1 False a)
       \<and> opt_flags a 0 = opt_flags (example_multi [''prog'', ''-axyz!'']) 0
       \<and> cmdapp_search (example_multi [''prog'', ''-axyz!'']) (CHR ''x'') None = Inr None"
proof -
  let ?A = "example_multi [''prog'', ''-axyz!'']"
  obtain a where st: "cmdapp_step example_h0 1 False ?A = Inr (Continue 1 False a)"
    by (simp add: eval_defs example_multi_def example_h0_def multiflag_loop.simps Let_def)
  have h: "mode ?A OR CMDAPP_MODE_SHORTARG example_h0 = 0"
    "IS_SHORT_FLAG (argv ?A ! 1)" "\<not> IS_LONG_FLAG (argv ?A ! 1)"
    "cmdapp_search ?A (byte (argv ?A ! 1) 1) None = Inr (Some 0)"
    by (simp_all add: eval_defs example_multi_def example_h0_def)
  have x: "cmdapp_search ?A (CHR ''x'') None = Inr None"
    by (simp add: eval_defs example_multi_def)
  from C8_cluster_is_not_resolved [where c=example_h0 and app="?A" and i=1 and ?k0.0=0
      and r="Continue 1 False a"] h st
  have "\<forall>k. opt_flags (app_of (Continue 1 False a)) k = opt_flags ?A k" by blast
  then have "opt_flags a 0 = opt_flags ?A 0" by simp
  with st x show ?thesis by blast
qed

text \<open>
  C9. Scans of a vector whose tokens before \<open>--help\<close> (or \<open>--version\<close>) do not start
  with \<open>-\<close>, so that the token is reached as a flag.

  When every registered option has a long name and none has this one, the lookup
  returns NULL and the renderer is called. For \<open>--version\<close> the scan then returns
  \<open>EXIT_SUCCESS\<close> at once with the version text as output and the state it had, whatever
  tokens follow. For \<open>--help\<close> the option loop of \<open>cmdapp_print_help\<close> runs \<open>i\<close> up to
  \<open>_argc\<close> over \<open>_start[i]\<close>, which has \<open>_length\<close> entries (its test before the loop is on
  \<open>_length\<close>, and the loops of \<open>cmdapp_search\<close> run up to \<open>_length\<close>): the scan returns
  \<open>EXIT_SUCCESS\<close> with the help text when the registry is empty or the vector has at most
  as many tokens as the registry has options, and otherwise the renderer reads
  entries that were never written and the scan does not return successfully. The
  tokens after \<open>--help\<close> are not classified, but their number decides which of the two
  happens.

  When an option without a long name is registered before any option of this name,
  the lookup hands its NULL \<open>longo\<close> to \<open>strcmp\<close>, for \<open>--help\<close> and \<open>--version\<close> alike.

  When an option is registered under this name, with named options only before it, no
  renderer is called and the registered option decides: "expects an argument" when
  \<open>flags | CMDOPT_TAKESARG\<close> is non-zero, otherwise the option is marked and the scan
  goes on with the next token.
\<close>

theorem C9_help_renderer_reads_past_registry:
  assumes pre: "\<forall>t\<in>set pre. \<not> IS_SHORT_FLAG t"
  shows "((\<forall>e\<in>set (start app). \<exists>l. longo (result e) = Some l \<and> l \<noteq> ''help'') \<longrightarrow>
            (start app = [] \<or> length (pre @ [''--help''] @ post) \<le> length (start app) \<longrightarrow>
               (\<exists>rendered.
                  cmdapp_print_help c (app\<lparr>argv := pre @ [''--help''] @ post\<rparr>) = Inr rendered
                  \<and> cmdapp_run c (app\<lparr>argv := pre @ [''--help''] @ post\<rparr>)
                    = Inr (EXIT_SUCCESS, Stdout rendered,
                           app\<lparr>argv := pre @ [''--help''] @ post,
                               args := Some (tokens_from 0 (length pre))\<rparr>)))
            \<and> (start app \<noteq> [] \<and> length (start app) < length (pre @ [''--help''] @ post) \<longrightarrow>
                 cmdapp_run c (app\<lparr>argv := pre @ [''--help''] @ post\<rparr>) = Inl Uninitialised))
       \<and> ((\<forall>e\<in>set (start app). \<exists>l. longo (result e) = Some l \<and> l \<noteq> ''version'') \<longrightarrow>
            cmdapp_run c (app\<lparr>argv := pre @ [''--version''] @ post\<rparr>)
            = Inr (EXIT_SUCCESS, Stdout (cmdapp_print_version app),
                   app\<lparr>argv := pre @ [''--version''] @ post,
                       args := Some (tokens_from 0 (length pre))\<rparr>))
       \<and> ((lo = ''help'' \<or> lo = ''version'') \<and> k < length (start app)
            \<and> longo (result (start app ! k)) = None
            \<and> (\<forall>j<k. \<exists>l. longo (result (start app ! j)) = Some l \<and> l \<noteq> lo) \<longrightarrow>
            cmdapp_run c (app\<lparr>argv := pre @ [''--'' @ lo] @ post\<rparr>) = Inl NullDeref)
       \<and> ((lo = ''help'' \<or> lo = ''version'') \<and> k < length (start app)
            \<and> longo (result (start app ! k)) = Some lo
            \<and> (\<forall>j<k. \<exists>l. longo (result (start app ! j)) = Some l \<and> l \<noteq> lo) \<longrightarrow>
            cmdapp_run c (app\<lparr>argv := pre @ [''--'' @ lo] @ post\<rparr>)
            = (if opt_flags app k OR CMDOPT_TAKESARG c \<noteq> 0
               then Inr (EXIT_FAILURE, Stderr (Expects_an_argument (''--'' @ lo)),
                         app\<lparr>argv := pre @ [''--'' @ lo] @ post,
                             args := Some (tokens_from 0 (length pre))\<rparr>)
               else run_loop c (Suc (length pre)) False
                      (set_exists c k
                         (app\<lparr>argv := pre @ [''--'' @ lo] @ post,
                              args := Some (tokens_from 0 (length pre))\<rparr>))))"
proof (intro conjI impI; (elim conjE)?)
  let ?H = "pre @ [''--help''] @ post"
  let ?sH = "app\<lparr>argv := ?H, args := Some (tokens_from 0 (length pre))\<rparr>"
  have tokH: "argv ?sH ! length pre = ''--help''" by (simp add: nth_append)
  note runH = cmdapp_run_long_token[OF pre help_token(1,2), where c=c and app=app and post=post]
  {
    assume nf: "\<forall>e\<in>set (start app). \<exists>l. longo (result e) = Some l \<and> l \<noteq> ''help''"
    then have s: "cmdapp_search ?sH NUL (Some (cstr (drop 2 (argv ?sH ! length pre)))) = Inr None"
      unfolding tokH help_token(5) by (simp add: cmdapp_search_None_iff)
    have ne: "strchr (argv ?sH ! length pre) (CHR ''='') = None"
      unfolding tokH by (rule help_token(3))
    have lf: "long_flag c (length pre) ?sH
              = (case cmdapp_print_help c ?sH of
                   Inl f \<Rightarrow> Inl f
                 | Inr rendered \<Rightarrow> Inr (Return EXIT_SUCCESS (Stdout rendered) ?sH))"
      unfolding long_flag_notfound[OF ne s] tokH help_token(4) by simp
    have ph: "cmdapp_print_help c ?sH = cmdapp_print_help c (app\<lparr>argv := ?H\<rparr>)"
      by (simp add: cmdapp_print_help_def Let_def split: list.splits)
    {
      assume "start app = [] \<or> length ?H \<le> length (start app)"
      then obtain rendered where r: "cmdapp_print_help c (app\<lparr>argv := ?H\<rparr>) = Inr rendered"
        using print_help_returns[of "app\<lparr>argv := ?H\<rparr>" c] by auto
      have "cmdapp_run c (app\<lparr>argv := ?H\<rparr>) = Inr (EXIT_SUCCESS, Stdout rendered, ?sH)"
        unfolding runH lf ph r by simp
      with r show "\<exists>rendered.
                  cmdapp_print_help c (app\<lparr>argv := ?H\<rparr>) = Inr rendered
                  \<and> cmdapp_run c (app\<lparr>argv := ?H\<rparr>) = Inr (EXIT_SUCCESS, Stdout rendered, ?sH)"
        by blast
    }
    {
      assume "start app \<noteq> []" "length (start app) < length ?H"
      then have "cmdapp_print_help c (app\<lparr>argv := ?H\<rparr>) = Inl Uninitialised"
        using print_help_reads_past[of "app\<lparr>argv := ?H\<rparr>" c] by simp
      then show "cmdapp_run c (app\<lparr>argv := ?H\<rparr>) = Inl Uninitialised"
        unfolding runH lf ph by simp
    }
  }
  let ?V = "pre @ [''--version''] @ post"
  let ?sV = "app\<lparr>argv := ?V, args := Some (tokens_from 0 (length pre))\<rparr>"
  have tokV: "argv ?sV ! length pre = ''--version''" by (simp add: nth_append)
  note runV = cmdapp_run_long_token[OF pre version_token(1,2), where c=c and app=app and post=post]
  {
    assume nf: "\<forall>e\<in>set (start app). \<exists>l. longo (result e) = Some l \<and> l \<noteq> ''version''"
    then have s: "cmdapp_search ?sV NUL (Some (cstr (drop 2 (argv ?sV ! length pre)))) = Inr None"
      unfolding tokV version_token(5) by (simp add: cmdapp_search_None_iff)
    have ne: "strchr (argv ?sV ! length pre) (CHR ''='') = None"
      unfolding tokV by (rule version_token(3))
    have lf: "long_flag c (length pre) ?sV
              = Inr (Return EXIT_SUCCESS (Stdout (cmdapp_print_version ?sV)) ?sV)"
      unfolding long_flag_notfound[OF ne s] tokV version_token(4) by simp
    show "cmdapp_run c (app\<lparr>argv := ?V\<rparr>)
            = Inr (EXIT_SUCCESS, Stdout (cmdapp_print_version app), ?sV)"
      unfolding runV lf by simp
  }
  let ?T = "pre @ [''--'' @ lo] @ post"
  let ?s = "app\<lparr>argv := ?T, args := Some (tokens_from 0 (length pre))\<rparr>"
  have tok: "argv ?s ! length pre = ''--'' @ lo" by (simp add: nth_append)
  {
    assume lo: "lo = ''help'' \<or> lo = ''version''"
    then have t: "IS_LONG_FLAG (''--'' @ lo)" "\<not> IS_END_OF_FLAGS (''--'' @ lo)"
      "strchr (''--'' @ lo) (CHR ''='') = None" "cstr (''--'' @ lo) = ''--'' @ lo"
      "cstr (drop 2 (''--'' @ lo)) = lo"
      using help_token version_token by auto
    note run = cmdapp_run_long_token[OF pre t(1,2), where c=c and app=app and post=post]
    have ne: "strchr (argv ?s ! length pre) (CHR ''='') = None"
      unfolding tok by (rule t(3))
    {
      assume k: "k < length (start app)" and nn: "longo (result (start app ! k)) = None"
        and bf: "\<forall>j<k. \<exists>l. longo (result (start app ! j)) = Some l \<and> l \<noteq> lo"
      have "cmdapp_search ?s NUL (Some lo) = Inl NullDeref"
        using search_long_null_name[OF k nn bf, of 0] by (simp add: cmdapp_search_def)
      then have f: "cmdapp_search ?s NUL (Some (cstr (drop 2
                      (case strchr (argv ?s ! length pre) (CHR ''='') of
                         None \<Rightarrow> argv ?s ! length pre
                       | Some p \<Rightarrow> (argv ?s ! length pre)[p := NUL])))) = Inl NullDeref"
        unfolding tok t(3) option.case t(5) .
      have i: "length pre < length (argv ?s)" by simp
      show "cmdapp_run c (app\<lparr>argv := ?T\<rparr>) = Inl NullDeref"
        unfolding run long_flag_fault[OF f i] by simp
    }
    {
      assume k: "k < length (start app)" and nm: "longo (result (start app ! k)) = Some lo"
        and bf: "\<forall>j<k. \<exists>l. longo (result (start app ! j)) = Some l \<and> l \<noteq> lo"
      from bf have fm: "\<forall>j<k. longo (result (start app ! j)) \<noteq> Some lo"
        and al: "\<forall>j<k. longo (result (start app ! j)) \<noteq> None"
        by auto
      have "cmdapp_search ?s NUL (Some lo) = Inr (Some k)"
        using search_long_first[OF k nm fm, of 0] al by (simp add: cmdapp_search_def)
      then have f: "cmdapp_search ?s NUL (Some (cstr (drop 2 (argv ?s ! length pre))))
                    = Inr (Some k)"
        unfolding tok t(5) .
      have fl: "opt_flags ?s k = opt_flags app k" by (simp add: opt_flags_def)
      show "cmdapp_run c (app\<lparr>argv := ?T\<rparr>)
            = (if opt_flags app k OR CMDOPT_TAKESARG c \<noteq> 0
               then Inr (EXIT_FAILURE, Stderr (Expects_an_argument (''--'' @ lo)), ?s)
               else run_loop c (Suc (length pre)) False (set_exists c k ?s))"
        unfolding run long_flag_found_noarg[OF ne f] fl tok t(4) by simp
    }
  }
qed

theorem C9_help_renderer_reads_past_registry_witness:
  "cmdapp_run example_h (example_app [''prog'', ''x'', ''--help'']) = Inl Uninitialised
   \<and> cmdapp_run example_h (example_app [''prog'', ''--help'', ''x'']) = Inl Uninitialised
   \<and> (\<exists>rendered. cmdapp_run example_h (example_app [''prog'', ''--help''])
          = Inr (EXIT_SUCCESS, Stdout rendered,
                 (example_app [''prog'', ''--help''])\<lparr>args := Some [(0, 0)]\<rparr>))
   \<and> cmdapp_run example_h (example_app [''prog'', ''--version'', ''--bogus''])
     = Inr (EXIT_SUCCESS, Stdout (cmdapp_print_version (example_app [])),
            (example_app [''prog'', ''--version'', ''--bogus''])\<lparr>args := Some [(0, 0)]\<rparr>)
   \<and> cmdapp_run example_h (example_short_first [''prog'', ''--help'']) = Inl NullDeref
   \<and> cmdapp_run example_h (example_short_first [''prog'', ''--version'']) = Inl NullDeref
   \<and> cmdapp_run example_h
        (cmdapp_set (example_app [''prog'', ''--help'']) (CHR ''h'') (Some ''help'') 0 None [])
     = Inr (EXIT_FAILURE, Stderr (Expects_an_argument ''--help''),
            (cmdapp_set (example_app [''prog'', ''--help'']) (CHR ''h'') (Some ''help'') 0 None [])
              \<lparr>args := Some [(0, 0)]\<rparr>)"
proof -
  let ?A = "example_app []" and ?S = "example_short_first []"
  let ?R = "cmdapp_set (example_app []) (CHR ''h'') (Some ''help'') 0 None []"
  have p1: "\<forall>t\<in>set [''prog'']. \<not> IS_SHORT_FLAG t"
    and p2: "\<forall>t\<in>set [''prog'', ''x'']. \<not> IS_SHORT_FLAG t"
    by (simp_all add: IS_SHORT_FLAG_def)
  have eA: "?A\<lparr>argv := V\<rparr> = example_app V" for V
    by (simp add: example_defs)
  have eS: "?S\<lparr>argv := V\<rparr> = example_short_first V" for V
    by (simp add: example_short_first_def example_defs)
  have eR: "?R\<lparr>argv := V\<rparr>
            = cmdapp_set (example_app V) (CHR ''h'') (Some ''help'') 0 None []" for V
    by (simp add: example_defs)
  have nA: "\<forall>e\<in>set (start ?A). \<exists>l. longo (result e) = Some l \<and> l \<noteq> ''help''"
    "\<forall>e\<in>set (start ?A). \<exists>l. longo (result e) = Some l \<and> l \<noteq> ''version''"
    "start ?A \<noteq> []" "length (start ?A) = 2"
    by (simp_all add: example_defs)
  have nS: "0 < length (start ?S)" "longo (result (start ?S ! 0)) = None"
    by (simp_all add: example_short_first_def example_defs)
  have nR: "2 < length (start ?R)" "longo (result (start ?R ! 2)) = Some ''help''"
    "\<forall>j<2. \<exists>l. longo (result (start ?R ! j)) = Some l \<and> l \<noteq> ''help''"
    "opt_flags ?R 2 OR CMDOPT_TAKESARG example_h \<noteq> 0"
    by (simp_all add: example_defs opt_flags_def less_Suc_eq numeral_2_eq_2)
  note C = C9_help_renderer_reads_past_registry
  have 1: "cmdapp_run example_h (example_app [''prog'', ''x'', ''--help'']) = Inl Uninitialised"
    using C[OF p2, where app="?A" and post="[]" and c=example_h, THEN conjunct1] nA
    by (simp add: eA)
  have 2: "cmdapp_run example_h (example_app [''prog'', ''--help'', ''x'']) = Inl Uninitialised"
    using C[OF p1, where app="?A" and post="[''x'']" and c=example_h, THEN conjunct1] nA
    by (simp add: eA)
  have 3: "\<exists>rendered. cmdapp_run example_h (example_app [''prog'', ''--help''])
          = Inr (EXIT_SUCCESS, Stdout rendered,
                 (example_app [''prog'', ''--help''])\<lparr>args := Some [(0, 0)]\<rparr>)"
    using C[OF p1, where app="?A" and post="[]" and c=example_h, THEN conjunct1] nA
    by (auto simp: eA tokens_from_def)
  have 4: "cmdapp_run example_h (example_app [''prog'', ''--version'', ''--bogus''])
     = Inr (EXIT_SUCCESS, Stdout (cmdapp_print_version (example_app [])),
            (example_app [''prog'', ''--version'', ''--bogus''])\<lparr>args := Some [(0, 0)]\<rparr>)"
    using C[OF p1, where app="?A" and post="[''--bogus'']" and c=example_h,
            THEN conjunct2, THEN conjunct1] nA
    by (simp add: eA tokens_from_def)
  have 5: "cmdapp_run example_h (example_short_first [''prog'', ''--help'']) = Inl NullDeref"
    using C[OF p1, where app="?S" and post="[]" and c=example_h and lo="''help''" and k=0,
            THEN conjunct2, THEN conjunct2, THEN conjunct1] nS
    by (simp add: eS)
  have 6: "cmdapp_run example_h (example_short_first [''prog'', ''--version'']) = Inl NullDeref"
    using C[OF p1, where app="?S" and post="[]" and c=example_h and lo="''version''" and k=0,
            THEN conjunct2, THEN conjunct2, THEN conjunct1] nS
    by (simp add: eS)
  have 7: "cmdapp_run example_h
        (cmdapp_set (example_app [''prog'', ''--help'']) (CHR ''h'') (Some ''help'') 0 None [])
     = Inr (EXIT_FAILURE, Stderr (Expects_an_argument ''--help''),
            (cmdapp_set (example_app [''prog'', ''--help'']) (CHR ''h'') (Some ''help'') 0 None [])
              \<lparr>args := Some [(0, 0)]\<rparr>)"
    using C[OF p1, where app="?R" and post="[]" and c=example_h and lo="''help''" and k=2,
            THEN conjunct2, THEN conjunct2, THEN conjunct2] nR
    by (simp add: eR tokens_from_def)
  from 1 2 3 4 5 6 7 show ?thesis by blast
qed



end
